theory Spec2Isabelle
  imports Complex_Main "HOL-Library.Multiset" "HOL-Library.Word"
begin

section \<open>Data model\<close>

text \<open>
  JavaScript numbers are modelled as exact rationals: image dimensions, padding and
  widths are integers in every call the application makes, and the only non-integer
  coordinates the packers produce are halves (vertical centring on a shelf), which
  doubles represent exactly. The two values of a double that a rational cannot
  express, \<open>Infinity\<close> and \<open>NaN\<close>, are written out where the source can produce
  them. The opaque \<open>img\<close> payload, the canvas and the constant fields
  \<open>offsetX = offsetY = 0\<close> of a frame carry no geometry and are left out.
\<close>

record item =
  name :: string
  width :: rat
  height :: rat

record frame =
  fname :: string
  x :: rat
  y :: rat
  fwidth :: rat
  fheight :: rat
  originalWidth :: rat
  originalHeight :: rat
  rotated :: bool

text \<open>A free or used rectangle of the MaxRectangles packer: \<open>{x, y, width, height}\<close>.\<close>

record rect =
  rx :: rat
  ry :: rat
  rwidth :: rat
  rheight :: rat

text \<open>What a packer returns: \<open>{canvas, frames, width, height}\<close> without the canvas.\<close>

record layout =
  frames :: "frame list"
  lwidth :: rat
  lheight :: rat

subsection \<open>Array.prototype.sort with a comparator\<close>

text \<open>
  \<open>Array.prototype.sort\<close> is stable. Every comparator of the sources orders by a
  key (or by a class and then a key), so the sorted array is determined by the
  comparator and stability alone; the stable insertion sort below computes it. The
  comparators themselves are translated as they are written.
\<close>

fun insort_cmp :: "('a \<Rightarrow> 'a \<Rightarrow> rat) \<Rightarrow> 'a \<Rightarrow> 'a list \<Rightarrow> 'a list" where
  "insort_cmp c a [] = [a]"
| "insort_cmp c a (b # bs) = (if c a b \<le> 0 then a # b # bs else b # insort_cmp c a bs)"

definition js_sort :: "('a \<Rightarrow> 'a \<Rightarrow> rat) \<Rightarrow> 'a list \<Rightarrow> 'a list" where
  "js_sort c xs = foldr (insort_cmp c) xs []"

section \<open>maxRectanglesPacker.js\<close>

subsection \<open>findPositionForNewNodeBestShortSideFit\<close>

text \<open>
  The loop state is \<open>bestNode\<close> with \<open>bestShortSideFit\<close> and \<open>bestLongSideFit\<close>; the
  last two start at \<open>Infinity\<close> and are only ever assigned together, so \<open>None\<close> stands
  for the pair \<open>(Infinity, Infinity)\<close>.
\<close>

definition bssf_step :: "rat \<Rightarrow> rat \<Rightarrow> rect \<times> (rat \<times> rat) option \<Rightarrow> rect \<Rightarrow> rect \<times> (rat \<times> rat) option" where
  "bssf_step w h st r =
     (if rwidth r \<ge> w \<and> rheight r \<ge> h then
        (let leftoverHoriz = \<bar>rwidth r - w\<bar>;
             leftoverVert = \<bar>rheight r - h\<bar>;
             shortSideFit = min leftoverHoriz leftoverVert;
             longSideFit = max leftoverHoriz leftoverVert
         in if (case snd st of
                  None \<Rightarrow> True
                | Some (bestShortSideFit, bestLongSideFit) \<Rightarrow>
                    shortSideFit < bestShortSideFit \<or>
                    (shortSideFit = bestShortSideFit \<and> longSideFit < bestLongSideFit))
            then (\<lparr>rx = rx r, ry = ry r, rwidth = w, rheight = h\<rparr>, Some (shortSideFit, longSideFit))
            else st)
      else st)"

definition findPositionForNewNodeBestShortSideFit :: "rect list \<Rightarrow> rat \<Rightarrow> rat \<Rightarrow> rect" where
  "findPositionForNewNodeBestShortSideFit freeRectangles w h =
     fst (foldl (bssf_step w h) (\<lparr>rx = 0, ry = 0, rwidth = 0, rheight = 0\<rparr>, None) freeRectangles)"

subsection \<open>splitFreeRectangle, splitFreeRectangles, pruneFreeRectangles\<close>

text \<open>
  \<open>splitFreeRectangle\<close> returns \<open>false\<close> (here \<open>None\<close>) when the used rectangle does not
  overlap the free one; otherwise it pushes up to four new nodes on the end of the
  list, in the order top, bottom, left, right, and returns \<open>true\<close> (here the pushed
  nodes).
\<close>

definition splitFreeRectangle :: "rect \<Rightarrow> rect \<Rightarrow> rect list option" where
  "splitFreeRectangle freeRect usedRectangle =
     (if rx usedRectangle \<ge> rx freeRect + rwidth freeRect \<or>
         rx usedRectangle + rwidth usedRectangle \<le> rx freeRect \<or>
         ry usedRectangle \<ge> ry freeRect + rheight freeRect \<or>
         ry usedRectangle + rheight usedRectangle \<le> ry freeRect
      then None
      else Some (
        (if rx usedRectangle < rx freeRect + rwidth freeRect \<and>
            rx usedRectangle + rwidth usedRectangle > rx freeRect
         then
           (if ry usedRectangle > ry freeRect \<and> ry usedRectangle < ry freeRect + rheight freeRect
            then [\<lparr>rx = rx freeRect, ry = ry freeRect, rwidth = rwidth freeRect,
                   rheight = ry usedRectangle - ry freeRect\<rparr>]
            else []) @
           (if ry usedRectangle + rheight usedRectangle < ry freeRect + rheight freeRect
            then [\<lparr>rx = rx freeRect, ry = ry usedRectangle + rheight usedRectangle,
                   rwidth = rwidth freeRect,
                   rheight = ry freeRect + rheight freeRect - (ry usedRectangle + rheight usedRectangle)\<rparr>]
            else [])
         else []) @
        (if ry usedRectangle < ry freeRect + rheight freeRect \<and>
            ry usedRectangle + rheight usedRectangle > ry freeRect
         then
           (if rx usedRectangle > rx freeRect \<and> rx usedRectangle < rx freeRect + rwidth freeRect
            then [\<lparr>rx = rx freeRect, ry = ry freeRect,
                   rwidth = rx usedRectangle - rx freeRect, rheight = rheight freeRect\<rparr>]
            else []) @
           (if rx usedRectangle + rwidth usedRectangle < rx freeRect + rwidth freeRect
            then [\<lparr>rx = rx usedRectangle + rwidth usedRectangle, ry = ry freeRect,
                   rwidth = rx freeRect + rwidth freeRect - (rx usedRectangle + rwidth usedRectangle),
                   rheight = rheight freeRect\<rparr>]
            else [])
         else [])))"

text \<open>\<open>freeRectangles.splice(i, 1)\<close>.\<close>

definition splice1 :: "nat \<Rightarrow> 'a list \<Rightarrow> 'a list" where
  "splice1 i xs = take i xs @ drop (Suc i) xs"

text \<open>
  The loop \<open>for (i = length - 1; i >= 0; i--)\<close> of \<open>splitFreeRectangles\<close>, on the list it
  mutates: \<open>split_loop n\<close> still has the indices \<open>n - 1, ..., 0\<close> to visit. Nodes pushed
  by a split land behind every index still to be visited.
\<close>

fun split_loop :: "nat \<Rightarrow> rect list \<Rightarrow> rect \<Rightarrow> rect list" where
  "split_loop 0 freeRectangles usedRectangle = freeRectangles"
| "split_loop (Suc i) freeRectangles usedRectangle =
     (case splitFreeRectangle (freeRectangles ! i) usedRectangle of
        None \<Rightarrow> split_loop i freeRectangles usedRectangle
      | Some newNodes \<Rightarrow> split_loop i (splice1 i (freeRectangles @ newNodes)) usedRectangle)"

definition isContainedIn :: "rect \<Rightarrow> rect \<Rightarrow> bool" where
  "isContainedIn a b \<longleftrightarrow>
     rx a \<ge> rx b \<and> ry a \<ge> ry b \<and>
     rx a + rwidth a \<le> rx b + rwidth b \<and>
     ry a + rheight a \<le> ry b + rheight b"

text \<open>
  The two nested loops of \<open>pruneFreeRectangles\<close> as one function of the loop variables
  \<open>i\<close>, \<open>j\<close> and the list: removing index \<open>i\<close> leaves \<open>i\<close> where it is (\<open>i--\<close>, \<open>break\<close>, then
  \<open>i++\<close>) and restarts \<open>j\<close> at \<open>i + 1\<close>; removing index \<open>j\<close> leaves \<open>j\<close> where it is.
\<close>

function prune_loop :: "nat \<Rightarrow> nat \<Rightarrow> rect list \<Rightarrow> rect list" where
  "prune_loop i j freeRectangles =
     (if i \<ge> length freeRectangles then freeRectangles
      else if j \<ge> length freeRectangles then prune_loop (i + 1) (i + 2) freeRectangles
      else if isContainedIn (freeRectangles ! i) (freeRectangles ! j)
           then prune_loop i (i + 1) (splice1 i freeRectangles)
      else if isContainedIn (freeRectangles ! j) (freeRectangles ! i)
           then prune_loop i j (splice1 j freeRectangles)
      else prune_loop i (j + 1) freeRectangles)"
  by pat_completeness auto
termination
  by (relation "measures [\<lambda>(i, j, fr). length fr - i, \<lambda>(i, j, fr). length fr - j]")
     (auto simp: splice1_def)

declare prune_loop.simps [simp del]

definition pruneFreeRectangles :: "rect list \<Rightarrow> rect list" where
  "pruneFreeRectangles freeRectangles = prune_loop 0 1 freeRectangles"

definition splitFreeRectangles :: "rect list \<Rightarrow> rect \<Rightarrow> rect list" where
  "splitFreeRectangles freeRectangles usedRectangle =
     pruneFreeRectangles (split_loop (length freeRectangles) freeRectangles usedRectangle)"

subsection \<open>maxRectanglesPack\<close>

record mr_state =
  freeRectangles :: "rect list"
  usedRectangles :: "rect list"
  mframes :: "frame list"

text \<open>
  One iteration of \<open>for (const item of images)\<close>; \<open>None\<close> is \<open>return null\<close>. The test
  \<open>bestNode.height === 0\<close> is the source's test for "no rectangle found".
\<close>

definition mr_place :: "rat \<Rightarrow> mr_state \<Rightarrow> item \<Rightarrow> mr_state option" where
  "mr_place padding st it =
     (let bestNode = findPositionForNewNodeBestShortSideFit (freeRectangles st)
                       (width it + padding) (height it + padding)
      in if rheight bestNode = 0 then
           (let bestNode = findPositionForNewNodeBestShortSideFit (freeRectangles st)
                             (height it + padding) (width it + padding)
            in if rheight bestNode = 0 then None
               else
                 (let fr = \<lparr>fname = name it, x = rx bestNode, y = ry bestNode,
                             fwidth = height it, fheight = width it,
                             originalWidth = width it, originalHeight = height it,
                             rotated = True\<rparr>;
                      used = \<lparr>rx = rx bestNode, ry = ry bestNode,
                               rwidth = height it + padding, rheight = width it + padding\<rparr>
                  in Some \<lparr>freeRectangles = splitFreeRectangles (freeRectangles st) used,
                           usedRectangles = usedRectangles st @ [used],
                           mframes = mframes st @ [fr]\<rparr>))
         else
           (let fr = \<lparr>fname = name it, x = rx bestNode, y = ry bestNode,
                       fwidth = width it, fheight = height it,
                       originalWidth = width it, originalHeight = height it,
                       rotated = False\<rparr>;
                used = \<lparr>rx = rx bestNode, ry = ry bestNode,
                         rwidth = width it + padding, rheight = height it + padding\<rparr>
            in Some \<lparr>freeRectangles = splitFreeRectangles (freeRectangles st) used,
                     usedRectangles = usedRectangles st @ [used],
                     mframes = mframes st @ [fr]\<rparr>))"

fun mr_loop :: "rat \<Rightarrow> item list \<Rightarrow> mr_state \<Rightarrow> mr_state option" where
  "mr_loop padding [] st = Some st"
| "mr_loop padding (it # images) st =
     (case mr_place padding st it of
        None \<Rightarrow> None
      | Some st' \<Rightarrow> mr_loop padding images st')"

text \<open>The bounding box both packers compute from the frames placed.\<close>

definition maxRight :: "rat \<Rightarrow> frame list \<Rightarrow> rat" where
  "maxRight padding fs = foldl (\<lambda>m f. max m (x f + fwidth f + padding)) padding fs"

definition maxBottom :: "rat \<Rightarrow> frame list \<Rightarrow> rat" where
  "maxBottom padding fs = foldl (\<lambda>m f. max m (y f + fheight f + padding)) padding fs"

definition mr_init :: "rat \<Rightarrow> mr_state" where
  "mr_init maxWidth =
     \<lparr>freeRectangles = [\<lparr>rx = 0, ry = 0, rwidth = maxWidth, rheight = 4096\<rparr>],
      usedRectangles = [], mframes = []\<rparr>"

definition maxRectanglesPack :: "item list \<Rightarrow> rat \<Rightarrow> rat \<Rightarrow> layout option" where
  "maxRectanglesPack images padding maxWidth =
     (case mr_loop padding images (mr_init maxWidth) of
        None \<Rightarrow> None
      | Some st \<Rightarrow>
          Some \<lparr>frames = mframes st,
                lwidth = maxRight padding (mframes st),
                lheight = maxBottom padding (mframes st)\<rparr>)"

section \<open>app.js: the Shelf packer\<close>

record shelf =
  sy :: rat
  sheight :: rat
  currentX :: rat
  smaxWidth :: rat

subsection \<open>Step one: the best existing shelf\<close>

text \<open>
  A candidate is a shelf (by its index in \<open>shelves\<close>) and an orientation. The loop
  state \<open>bestShelf\<close>, \<open>bestRotated\<close>, \<open>bestScore\<close>, \<open>bestFit\<close> starts at
  \<open>null, false, -Infinity, Infinity\<close> and is only ever assigned as a whole, so \<open>None\<close>
  stands for the initial state and \<open>Some (index, rotated, score, waste)\<close> for an
  assigned one.
\<close>

definition remainingWidth :: "rat \<Rightarrow> rat \<Rightarrow> shelf \<Rightarrow> rat" where
  "remainingWidth padding maxWidth s = maxWidth - currentX s - padding"

definition eligible :: "rat \<Rightarrow> rat \<Rightarrow> shelf \<Rightarrow> rat \<Rightarrow> rat \<Rightarrow> bool" where
  "eligible padding maxWidth s placeWidth placeHeight \<longleftrightarrow>
     placeWidth \<le> remainingWidth padding maxWidth s \<and> placeHeight \<le> sheight s"

definition shelfScore :: "rat \<Rightarrow> rat \<Rightarrow> shelf \<Rightarrow> rat \<Rightarrow> rat \<Rightarrow> rat" where
  "shelfScore padding maxWidth s placeWidth placeHeight =
     (let waste = sheight s - placeHeight;
          widthFit = remainingWidth padding maxWidth s - placeWidth;
          shelfUtilization = (currentX s * sheight s) / (maxWidth * sheight s)
      in - waste * 2 - widthFit * (1 / 10) + shelfUtilization * 10 + sy s * (1 / 20))"

type_synonym best_shelf = "(nat \<times> bool \<times> rat \<times> rat) option"

definition better :: "rat \<Rightarrow> rat \<Rightarrow> best_shelf \<Rightarrow> bool" where
  "better score waste best =
     (case best of
        None \<Rightarrow> True
      | Some (bestShelf, bestRotated, bestScore, bestFit) \<Rightarrow>
          score > bestScore \<or> (score = bestScore \<and> waste < bestFit))"

definition try_orientation ::
    "rat \<Rightarrow> rat \<Rightarrow> nat \<Rightarrow> shelf \<Rightarrow> bool \<Rightarrow> rat \<Rightarrow> rat \<Rightarrow> best_shelf \<Rightarrow> best_shelf" where
  "try_orientation padding maxWidth i s rot placeWidth placeHeight best =
     (if eligible padding maxWidth s placeWidth placeHeight then
        (let waste = sheight s - placeHeight;
             score = shelfScore padding maxWidth s placeWidth placeHeight
         in if better score waste best then Some (i, rot, score, waste) else best)
      else best)"

text \<open>The body of \<open>for (const shelf of shelves)\<close>: unrotated first, then rotated.\<close>

definition shelf_step :: "rat \<Rightarrow> rat \<Rightarrow> item \<Rightarrow> best_shelf \<Rightarrow> nat \<times> shelf \<Rightarrow> best_shelf" where
  "shelf_step padding maxWidth it best is =
     try_orientation padding maxWidth (fst is) (snd is) True (height it) (width it)
       (try_orientation padding maxWidth (fst is) (snd is) False (width it) (height it) best)"

definition findBestShelf :: "rat \<Rightarrow> rat \<Rightarrow> shelf list \<Rightarrow> item \<Rightarrow> best_shelf" where
  "findBestShelf padding maxWidth shelves it =
     foldl (shelf_step padding maxWidth it) None (zip [0 ..< length shelves] shelves)"

record sh_state =
  sframes :: "frame list"
  shelves :: "shelf list"
  newImages :: "item list"
  placedThisRound :: bool

text \<open>\<open>if (bestShelf) { ... }\<close>: the frame goes to the shelf's cursor, which then advances.\<close>

definition placeOnShelf :: "rat \<Rightarrow> sh_state \<Rightarrow> item \<Rightarrow> nat \<Rightarrow> bool \<Rightarrow> sh_state" where
  "placeOnShelf padding st it i rot =
     (let bestShelf = shelves st ! i;
          placeWidth = (if rot then height it else width it);
          placeHeight = (if rot then width it else height it)
      in st\<lparr>sframes := sframes st @
                [\<lparr>fname = name it, x = currentX bestShelf, y = sy bestShelf,
                  fwidth = placeWidth, fheight = placeHeight,
                  originalWidth = width it, originalHeight = height it, rotated = rot\<rparr>],
             shelves := (shelves st)[i := bestShelf\<lparr>currentX := currentX bestShelf + placeWidth + padding\<rparr>],
             placedThisRound := True\<rparr>)"

subsection \<open>Step two: a new shelf\<close>

text \<open>
  The orientation on a new shelf. The source compares \<open>areaRotated = height * width\<close>
  with \<open>areaNormal = width * height\<close> when both orientations fit.
\<close>

definition newShelfRotated :: "rat \<Rightarrow> rat \<Rightarrow> item \<Rightarrow> bool" where
  "newShelfRotated padding maxWidth it =
     (let widthOverLimit = width it + padding > maxWidth;
          heightOverLimit = height it + padding > maxWidth
      in if widthOverLimit \<and> \<not> heightOverLimit then True
         else if \<not> widthOverLimit \<and> heightOverLimit then False
         else if \<not> widthOverLimit \<and> \<not> heightOverLimit then
           (let areaNormal = width it * height it;
                areaRotated = height it * width it
            in areaRotated < areaNormal)
         else False)"

text \<open>\<open>Math.round\<close> rounds halves up.\<close>

definition js_round :: "rat \<Rightarrow> rat" where
  "js_round v = of_int \<lfloor>v + 1 / 2\<rfloor>"

text \<open>
  \<open>heightCounts\<close> is an object keyed by the heights rounded to multiples of 8;
  \<open>Object.entries\<close> lists such non-negative integer keys in ascending order, and the
  stable sort by descending count then keeps the smallest key among the most frequent.
  In the source the key is a string; every use of it below converts it to a number.
\<close>

definition heightCounts :: "rat list \<Rightarrow> (rat \<times> nat) list" where
  "heightCounts allHeights =
     (let keys = map (\<lambda>h. js_round (h / 8) * 8) allHeights
      in map (\<lambda>k. (k, count_list keys k)) (sort (remdups keys)))"

definition mostCommonHeight :: "rat list \<Rightarrow> rat \<Rightarrow> rat" where
  "mostCommonHeight allHeights placeHeight =
     (case sort_key (\<lambda>e. - int (snd e)) (heightCounts allHeights) of
        [] \<Rightarrow> placeHeight
      | e # _ \<Rightarrow> fst e)"

definition medianHeight :: "rat list \<Rightarrow> rat" where
  "medianHeight allHeights = sort allHeights ! (length allHeights div 2)"

text \<open>The loop over \<open>viableHeights\<close>; \<open>bestHeightScore\<close> starts at \<open>-Infinity\<close> (\<open>None\<close>).\<close>

definition height_step :: "item list \<Rightarrow> rat option \<times> rat \<Rightarrow> rat \<Rightarrow> rat option \<times> rat" where
  "height_step allImages st testHeight =
     (let canFitCount = length (filter (\<lambda>img. height img \<le> testHeight) allImages);
          score = of_nat canFitCount * 100 - testHeight * (1 / 2)
      in if (case fst st of None \<Rightarrow> True | Some bestHeightScore \<Rightarrow> score > bestHeightScore)
         then (Some score, testHeight) else st)"

definition optimalHeight :: "item list \<Rightarrow> item \<Rightarrow> rat \<Rightarrow> rat" where
  "optimalHeight remainingImages it placeHeight =
     (let allImages = remainingImages @ [it];
          allHeights = map height allImages;
          viableHeights = filter (\<lambda>h. h \<ge> placeHeight \<and> h \<le> placeHeight * 2)
            [placeHeight, mostCommonHeight allHeights placeHeight, medianHeight allHeights,
             fold max (map height remainingImages) (height it)]
      in snd (foldl (height_step allImages) (None, placeHeight) viableHeights))"

text \<open>
  The merge with the last shelf. \<open>yOffset\<close> is computed after \<open>lastShelf.height\<close> has
  been overwritten with \<open>mergedHeight\<close>, and every frame whose \<open>y\<close> equals the shelf's
  \<open>y\<close> is moved by it.
\<close>

definition mergeIntoLast :: "rat \<Rightarrow> sh_state \<Rightarrow> item \<Rightarrow> bool \<Rightarrow> rat \<Rightarrow> sh_state" where
  "mergeIntoLast padding st it rot optHeight =
     (let lastShelf = last (shelves st);
          heightDiff = \<bar>sheight lastShelf - optHeight\<bar>;
          mergedHeight = max (sheight lastShelf) optHeight;
          yOffset = (mergedHeight - (mergedHeight - heightDiff)) / 2;
          placeH = (if rot then width it else height it);
          placeW = (if rot then height it else width it)
      in st\<lparr>sframes :=
               map (\<lambda>f. if y f = sy lastShelf then f\<lparr>y := y f + yOffset\<rparr> else f) (sframes st) @
               [\<lparr>fname = name it, x = currentX lastShelf,
                 y = sy lastShelf + (mergedHeight - placeH) / 2,
                 fwidth = placeW, fheight = placeH,
                 originalWidth = width it, originalHeight = height it, rotated = rot\<rparr>],
             shelves := (shelves st)[length (shelves st) - 1 :=
               lastShelf\<lparr>sheight := mergedHeight,
                         currentX := currentX lastShelf + placeW + padding\<rparr>],
             placedThisRound := True\<rparr>)"

definition createShelf :: "rat \<Rightarrow> rat \<Rightarrow> sh_state \<Rightarrow> item \<Rightarrow> bool \<Rightarrow> rat \<Rightarrow> rat \<Rightarrow> sh_state" where
  "createShelf padding maxWidth st it rot newY optHeight =
     (let placeWidth = (if rot then height it else width it);
          placeHeight = (if rot then width it else height it);
          newShelf = \<lparr>sy = newY, sheight = optHeight,
                      currentX = padding + placeWidth + padding, smaxWidth = maxWidth\<rparr>
      in st\<lparr>sframes := sframes st @
               [\<lparr>fname = name it, x = padding, y = newY + (optHeight - placeHeight) / 2,
                 fwidth = placeWidth, fheight = placeHeight,
                 originalWidth = width it, originalHeight = height it, rotated = rot\<rparr>],
             shelves := shelves st @ [newShelf],
             placedThisRound := True\<rparr>)"

text \<open>
  The block \<open>if (!placed) { ... }\<close> that opens a shelf: \<open>None\<close> is \<open>return null\<close>, and the
  flag returned with the state is the source's \<open>placed\<close>.
\<close>

definition openShelf :: "rat \<Rightarrow> rat \<Rightarrow> sh_state \<Rightarrow> item \<Rightarrow> (bool \<times> sh_state) option" where
  "openShelf padding maxWidth st it =
     (let newY = (if shelves st \<noteq> []
                  then sy (last (shelves st)) + sheight (last (shelves st)) + padding
                  else padding)
      in if newY > 4096 then None
         else
           (let rot = newShelfRotated padding maxWidth it;
                placeWidth = (if rot then height it else width it);
                placeHeight = (if rot then width it else height it)
            in if placeWidth + padding > maxWidth then None
               else
                 (let optHeight = optimalHeight (newImages st) it placeHeight
                  in if shelves st \<noteq> [] \<and>
                        \<bar>sheight (last (shelves st)) - optHeight\<bar> \<le> min (optHeight * (1 / 4)) 48 \<and>
                        currentX (last (shelves st)) + padding + placeWidth \<le> maxWidth
                     then Some (True, mergeIntoLast padding st it rot optHeight)
                     else Some (True, createShelf padding maxWidth st it rot newY optHeight))))"

subsection \<open>packImagesInternal\<close>

text \<open>
  One iteration of \<open>for (const item of images)\<close>. The local flag \<open>placed\<close> is kept as the
  source has it, down to the final \<open>if (!placed) newImages.push(item)\<close>.
\<close>

definition sh_place :: "rat \<Rightarrow> rat \<Rightarrow> sh_state \<Rightarrow> item \<Rightarrow> sh_state option" where
  "sh_place padding maxWidth st it =
     (if width it > maxWidth \<and> height it > maxWidth then None
      else
        (case findBestShelf padding maxWidth (shelves st) it of
           Some (bestShelf, bestRotated, bestScore, bestFit) \<Rightarrow>
             Some (placeOnShelf padding st it bestShelf bestRotated)
         | None \<Rightarrow>
             (case openShelf padding maxWidth st it of
                None \<Rightarrow> None
              | Some (placed, st') \<Rightarrow>
                  Some (if \<not> placed then st'\<lparr>newImages := newImages st' @ [it]\<rparr> else st'))))"

fun sweep :: "rat \<Rightarrow> rat \<Rightarrow> item list \<Rightarrow> sh_state \<Rightarrow> sh_state option" where
  "sweep padding maxWidth [] st = Some st"
| "sweep padding maxWidth (it # images) st =
     (case sh_place padding maxWidth st it of
        None \<Rightarrow> None
      | Some st' \<Rightarrow> sweep padding maxWidth images st')"

definition maxAttempts :: nat where
  "maxAttempts = 3"

text \<open>The re-sort at the end of a round, with \<open>attempt\<close> already incremented.\<close>

definition resort :: "nat \<Rightarrow> item list \<Rightarrow> item list" where
  "resort attempt images =
     (if images \<noteq> [] \<and> attempt < maxAttempts then
        (if attempt = 1 then
           js_sort (\<lambda>a b. min (width a) (height a) - min (width b) (height b)) images
         else if attempt = 2 then
           js_sort (\<lambda>a b. (width a + height a) - (width b + height b)) images
         else
           js_sort (\<lambda>a b. width a * height a - width b * height b) images)
      else images)"

text \<open>
  The loop \<open>while (images.length > 0 && attempt < maxAttempts)\<close> as a function of its
  variables \<open>attempt\<close>, \<open>images\<close> and the frames and shelves placed so far. Leaving the
  loop, by its condition or by \<open>break\<close>, goes on to build the result from the frames.
\<close>

function shelf_rounds :: "rat \<Rightarrow> rat \<Rightarrow> nat \<Rightarrow> item list \<Rightarrow> sh_state \<Rightarrow> sh_state option" where
  "shelf_rounds padding maxWidth attempt images st =
     (if images \<noteq> [] \<and> attempt < maxAttempts then
        (case sweep padding maxWidth images (st\<lparr>newImages := [], placedThisRound := False\<rparr>) of
           None \<Rightarrow> None
         | Some st' \<Rightarrow>
             if \<not> placedThisRound st' then Some st'
             else shelf_rounds padding maxWidth (attempt + 1)
                    (resort (attempt + 1) (newImages st')) st')
      else Some st)"
  by pat_completeness auto
termination
  by (relation "measure (\<lambda>(padding, maxWidth, attempt, images, st). maxAttempts - attempt)") auto

declare shelf_rounds.simps [simp del]

definition sh_init :: sh_state where
  "sh_init = \<lparr>sframes = [], shelves = [], newImages = [], placedThisRound = False\<rparr>"

definition packImagesInternal :: "item list \<Rightarrow> rat \<Rightarrow> rat \<Rightarrow> layout option" where
  "packImagesInternal sortedImages padding maxWidth =
     (case shelf_rounds padding maxWidth 0 sortedImages sh_init of
        None \<Rightarrow> None
      | Some st \<Rightarrow>
          Some \<lparr>frames = sframes st,
                lwidth = maxRight padding (sframes st),
                lheight = maxBottom padding (sframes st)\<rparr>)"

section \<open>The grid search: packImagesWithMaxRectangles and packImages\<close>

subsection \<open>nextPowerOf2\<close>

text \<open>
  \<open>Math.pow(2, Math.ceil(Math.log2(Math.max(1, n))))\<close>, with the logarithm taken
  exactly: the exponent is the least \<open>k\<close> with \<open>max 1 n \<le> 2 ^ k\<close>.
\<close>

function ceil_log2_from :: "nat \<Rightarrow> rat \<Rightarrow> nat" where
  "ceil_log2_from k v = (if v \<le> 2 ^ k then k else ceil_log2_from (k + 1) v)"
  by pat_completeness auto
termination
proof (relation "measure (\<lambda>(k, v). nat \<lceil>v\<rceil> - k)")
  show "wf (measure (\<lambda>(k, v). nat \<lceil>v\<rceil> - k))" by simp
next
  fix k :: nat and v :: rat
  assume "\<not> v \<le> 2 ^ k"
  then have "(2::rat) ^ k < v" by simp
  moreover have "of_nat k < (2::rat) ^ k" by (rule of_nat_less_two_power)
  ultimately have "of_nat k < v" by linarith
  then have "int k < \<lceil>v\<rceil>" by (simp add: less_ceiling_iff)
  then show "((k + 1, v), (k, v)) \<in> measure (\<lambda>(k, v). nat \<lceil>v\<rceil> - k)" by simp
qed

declare ceil_log2_from.simps [simp del]

definition nextPowerOf2 :: "rat \<Rightarrow> rat" where
  "nextPowerOf2 n = 2 ^ ceil_log2_from 0 (max 1 n)"

subsection \<open>The numbers of the comparison\<close>

text \<open>
  \<open>bestArea\<close> starts at \<open>Infinity\<close>, and \<open>efficiency = imgUsedArea / area * 100\<close> is
  \<open>NaN\<close> or infinite when \<open>area\<close> is zero, so the three variables of the comparison
  range over the doubles that are not rationals as well.
\<close>

datatype jsnum = Num rat | PosInfinity | NegInfinity | NaN

definition js_div :: "rat \<Rightarrow> rat \<Rightarrow> jsnum" where
  "js_div a b =
     (if b \<noteq> 0 then Num (a / b)
      else if a > 0 then PosInfinity else if a < 0 then NegInfinity else NaN)"

fun js_times :: "jsnum \<Rightarrow> rat \<Rightarrow> jsnum" where
  "js_times (Num a) c = Num (a * c)"
| "js_times PosInfinity c = (if c > 0 then PosInfinity else if c < 0 then NegInfinity else NaN)"
| "js_times NegInfinity c = (if c > 0 then NegInfinity else if c < 0 then PosInfinity else NaN)"
| "js_times NaN c = NaN"

fun js_gt :: "jsnum \<Rightarrow> jsnum \<Rightarrow> bool" where
  "js_gt (Num a) (Num b) = (a > b)"
| "js_gt PosInfinity (Num b) = True"
| "js_gt PosInfinity NegInfinity = True"
| "js_gt (Num a) NegInfinity = True"
| "js_gt a b = False"

fun js_eq :: "jsnum \<Rightarrow> jsnum \<Rightarrow> bool" where
  "js_eq (Num a) (Num b) = (a = b)"
| "js_eq PosInfinity PosInfinity = True"
| "js_eq NegInfinity NegInfinity = True"
| "js_eq a b = False"

subsection \<open>Sort strategies\<close>

text \<open>
  The entries of the two \<open>sortStrategies\<close> arrays, by their comparators. \<open>packImages\<close>
  uses all fourteen in the order of \<open>shelfStrategies\<close>; \<open>packImagesWithMaxRectangles\<close>
  uses the three of \<open>mrStrategies\<close>.
\<close>

datatype strategy =
    AreaDesc | AreaAsc | WidthDesc | WidthAsc | HeightDesc | HeightAsc
  | MaxEdgeDesc | MaxEdgeAsc | MinEdgeDesc | MinEdgeAsc
  | RatioDesc | RatioAsc | PerimeterDesc | PerimeterAsc

fun strategy_fn :: "strategy \<Rightarrow> item \<Rightarrow> item \<Rightarrow> rat" where
  "strategy_fn AreaDesc a b = (width b * height b) - (width a * height a)"
| "strategy_fn AreaAsc a b = (width a * height a) - (width b * height b)"
| "strategy_fn WidthDesc a b = width b - width a"
| "strategy_fn WidthAsc a b = width a - width b"
| "strategy_fn HeightDesc a b = height b - height a"
| "strategy_fn HeightAsc a b = height a - height b"
| "strategy_fn MaxEdgeDesc a b = max (width b) (height b) - max (width a) (height a)"
| "strategy_fn MaxEdgeAsc a b = max (width a) (height a) - max (width b) (height b)"
| "strategy_fn MinEdgeDesc a b = min (width b) (height b) - min (width a) (height a)"
| "strategy_fn MinEdgeAsc a b = min (width a) (height a) - min (width b) (height b)"
| "strategy_fn RatioDesc a b = (width b / height b) - (width a / height a)"
| "strategy_fn RatioAsc a b = (width a / height a) - (width b / height b)"
| "strategy_fn PerimeterDesc a b = (width b + height b) - (width a + height a)"
| "strategy_fn PerimeterAsc a b = (width a + height a) - (width b + height b)"

definition mrStrategies :: "strategy list" where
  "mrStrategies = [AreaDesc, MaxEdgeDesc, PerimeterDesc]"

definition shelfStrategies :: "strategy list" where
  "shelfStrategies =
     [AreaDesc, AreaAsc, WidthDesc, WidthAsc, HeightDesc, HeightAsc,
      MaxEdgeDesc, MaxEdgeAsc, MinEdgeDesc, MinEdgeAsc,
      RatioDesc, RatioAsc, PerimeterDesc, PerimeterAsc]"

subsection \<open>Width options\<close>

text \<open>
  \<open>maxWidth\<close> is an integer (the application reads it with \<open>parseInt\<close>), so every
  width option is one. \<open>Math.sqrt\<close> is taken exactly: \<open>ceil_sqrt v\<close> is the least
  natural number whose square is at least \<open>v\<close>, for the non-negative \<open>v\<close> that a sum
  of areas gives.
\<close>

function ceil_sqrt_from :: "nat \<Rightarrow> rat \<Rightarrow> nat" where
  "ceil_sqrt_from k v = (if v \<le> of_nat (k * k) then k else ceil_sqrt_from (k + 1) v)"
  by pat_completeness auto
termination
proof (relation "measure (\<lambda>(k, v). nat \<lceil>v\<rceil> - k)")
  show "wf (measure (\<lambda>(k, v). nat \<lceil>v\<rceil> - k))" by simp
next
  fix k :: nat and v :: rat
  assume "\<not> v \<le> of_nat (k * k)"
  then have "of_nat (k * k) < v" by simp
  moreover have "(of_nat k :: rat) \<le> of_nat (k * k)"
    by (simp only: of_nat_le_iff) simp
  ultimately have "of_nat k < v" by linarith
  then have "int k < \<lceil>v\<rceil>" by (simp add: less_ceiling_iff)
  then show "((k + 1, v), (k, v)) \<in> measure (\<lambda>(k, v). nat \<lceil>v\<rceil> - k)" by simp
qed

declare ceil_sqrt_from.simps [simp del]

definition ceil_sqrt :: "rat \<Rightarrow> int" where
  "ceil_sqrt v = int (ceil_sqrt_from 0 v)"

definition totalArea :: "item list \<Rightarrow> rat" where
  "totalArea images = foldl (\<lambda>sum img. sum + width img * height img) 0 images"

definition estimatedWidth :: "item list \<Rightarrow> int" where
  "estimatedWidth images = ceil_sqrt (totalArea images * (13 / 10))"

definition alignedWidth :: "int \<Rightarrow> int" where
  "alignedWidth est = \<lceil>(of_int est :: rat) / 16\<rceil> * 16"

text \<open>\<open>for (let pow = 11; pow >= 6; pow--)\<close>.\<close>

definition pow2Widths :: "int \<Rightarrow> int list" where
  "pow2Widths effectiveMaxWidth = filter (\<lambda>w. w \<le> effectiveMaxWidth) [2048, 1024, 512, 256, 128, 64]"

text \<open>The loop over \<open>adjacentWidths\<close>, pushing on \<open>widthOptions\<close>.\<close>

definition pushAdjacent :: "int \<Rightarrow> int \<Rightarrow> int list \<Rightarrow> int list" where
  "pushAdjacent effectiveMaxWidth aligned widthOptions =
     foldl (\<lambda>ws adjWidth.
              if adjWidth \<ge> 256 \<and> adjWidth \<le> effectiveMaxWidth \<and> adjWidth \<notin> set ws
              then ws @ [adjWidth] else ws)
       widthOptions [aligned - 48, aligned - 16, aligned + 16, aligned + 48]"

definition mrWidthOptions :: "item list \<Rightarrow> int \<Rightarrow> bool \<Rightarrow> int list" where
  "mrWidthOptions images maxWidth usePowerOfTwo =
     (let effectiveMaxWidth = min maxWidth 2048;
          widthOptions =
            (if usePowerOfTwo then pow2Widths effectiveMaxWidth
             else
               (let aligned = alignedWidth (estimatedWidth images);
                    ws = (if aligned \<le> effectiveMaxWidth \<and> aligned \<ge> 256
                          then pushAdjacent effectiveMaxWidth aligned [aligned] else [])
                in if ws = [] then [effectiveMaxWidth] else ws))
      in js_sort (\<lambda>a b. of_int (b - a)) widthOptions)"

unbundle bit_operations_syntax

text \<open>\<open>(a & (a - 1)) === 0\<close>, on widths that fit 32 bits.\<close>

definition isPow2 :: "int \<Rightarrow> bool" where
  "isPow2 a \<longleftrightarrow> (a AND (a - 1)) = 0"

definition shelfWidthOptions :: "item list \<Rightarrow> int \<Rightarrow> bool \<Rightarrow> int list" where
  "shelfWidthOptions images maxWidth usePowerOfTwo =
     (let effectiveMaxWidth = min maxWidth 2048;
          ws0 = (if usePowerOfTwo then pow2Widths effectiveMaxWidth else []);
          est = estimatedWidth images;
          ws1 = (if est \<le> effectiveMaxWidth \<and> est \<ge> 256 then
                   (let aligned = alignedWidth est
                    in pushAdjacent effectiveMaxWidth aligned
                         (if aligned \<notin> set ws0 then ws0 @ [aligned] else ws0))
                 else ws0);
          ws2 = (if ws1 = [] then [if usePowerOfTwo then 1024 else effectiveMaxWidth] else ws1)
      in js_sort (\<lambda>a b.
            if isPow2 a \<and> isPow2 b then of_int (b - a)
            else if \<not> isPow2 a \<and> \<not> isPow2 b then of_int (\<bar>a - est\<bar> - \<bar>b - est\<bar>)
            else if isPow2 a then - 1 else 1) ws2)"

subsection \<open>The loop over widths and strategies\<close>

text \<open>
  What one pass through the loop body has in hand before the comparison: the packer's
  result with its final dimensions, or nothing when the body has run into one of its
  two \<open>continue\<close> statements (the packer returned \<open>null\<close>, or a power-of-two dimension
  exceeds 2048).
\<close>

definition finalize :: "bool \<Rightarrow> layout option \<Rightarrow> layout option" where
  "finalize usePowerOfTwo result =
     (case result of
        None \<Rightarrow> None
      | Some r \<Rightarrow>
          if usePowerOfTwo then
            (let finalWidth = nextPowerOf2 (lwidth r);
                 finalHeight = nextPowerOf2 (lheight r)
             in if finalWidth > 2048 \<or> finalHeight > 2048 then None
                else Some \<lparr>frames = frames r, lwidth = finalWidth, lheight = finalHeight\<rparr>)
          else Some \<lparr>frames = frames r, lwidth = lwidth r, lheight = lheight r\<rparr>)"

record best_state =
  bestResult :: "layout option"
  bestArea :: jsnum
  bestEfficiency :: jsnum

definition best_init :: best_state where
  "best_init = \<lparr>bestResult = None, bestArea = PosInfinity, bestEfficiency = Num 0\<rparr>"

definition keep_best :: "item list \<Rightarrow> best_state \<Rightarrow> layout option \<Rightarrow> best_state" where
  "keep_best images st final =
     (case final of
        None \<Rightarrow> st
      | Some r \<Rightarrow>
          (let area = lwidth r * lheight r;
               imgUsedArea = totalArea images;
               efficiency = js_times (js_div imgUsedArea area) 100
           in if js_gt efficiency (bestEfficiency st) \<or>
                 (js_eq efficiency (bestEfficiency st) \<and> js_gt (bestArea st) (Num area))
              then \<lparr>bestResult = Some r, bestArea = Num area, bestEfficiency = efficiency\<rparr>
              else st))"

text \<open>
  One run of the grid: sort a copy of the images by the strategy, pack at the width,
  and give the result its final dimensions.
\<close>

definition mr_run :: "item list \<Rightarrow> rat \<Rightarrow> bool \<Rightarrow> int \<times> strategy \<Rightarrow> layout option" where
  "mr_run images padding usePowerOfTwo ws =
     finalize usePowerOfTwo
       (maxRectanglesPack (js_sort (strategy_fn (snd ws)) images) padding (of_int (fst ws)))"

definition shelf_run :: "item list \<Rightarrow> rat \<Rightarrow> bool \<Rightarrow> int \<times> strategy \<Rightarrow> layout option" where
  "shelf_run images padding usePowerOfTwo ws =
     finalize usePowerOfTwo
       (packImagesInternal (js_sort (strategy_fn (snd ws)) images) padding (of_int (fst ws)))"

text \<open>
  The nested loops \<open>for (const width of widthOptions) for (const strategy of
  sortStrategies)\<close> visit the pairs of \<open>List.product widthOptions sortStrategies\<close> in
  its order.
\<close>

definition mrGrid :: "item list \<Rightarrow> int \<Rightarrow> bool \<Rightarrow> (int \<times> strategy) list" where
  "mrGrid images maxWidth usePowerOfTwo =
     List.product (mrWidthOptions images maxWidth usePowerOfTwo) mrStrategies"

definition shelfGrid :: "item list \<Rightarrow> int \<Rightarrow> bool \<Rightarrow> (int \<times> strategy) list" where
  "shelfGrid images maxWidth usePowerOfTwo =
     List.product (shelfWidthOptions images maxWidth usePowerOfTwo) shelfStrategies"

definition packImagesWithMaxRectangles :: "item list \<Rightarrow> rat \<Rightarrow> int \<Rightarrow> bool \<Rightarrow> layout option" where
  "packImagesWithMaxRectangles images padding maxWidth usePowerOfTwo =
     bestResult
       (foldl (\<lambda>st ws. keep_best images st (mr_run images padding usePowerOfTwo ws))
          best_init (mrGrid images maxWidth usePowerOfTwo))"

definition packImages :: "item list \<Rightarrow> rat \<Rightarrow> int \<Rightarrow> bool \<Rightarrow> layout option" where
  "packImages images padding maxWidth usePowerOfTwo =
     bestResult
       (foldl (\<lambda>st ws. keep_best images st (shelf_run images padding usePowerOfTwo ws))
          best_init (shelfGrid images maxWidth usePowerOfTwo))"

section \<open>imageGrouper.js\<close>

text \<open>
  A threshold's \<open>maxArea\<close> or \<open>maxRatio\<close> may be \<open>Infinity\<close>, so thresholds are
  \<open>jsnum\<close>s. The category names of a configuration are taken to be ordinary property
  names (not integer-like, not inherited from \<open>Object.prototype\<close>), as those of
  \<open>GROUPING_CONFIG\<close> are, so that the objects keyed by them list their entries in
  insertion order.
\<close>

record grouping_config =
  SIZE_THRESHOLDS :: "(jsnum \<times> string) list"
  ASPECT_RATIO_THRESHOLDS :: "(jsnum \<times> string) list"
  MAX_IMAGES_PER_GROUP :: nat
  MAX_AREA_PER_GROUP :: rat

definition GROUPING_CONFIG :: grouping_config where
  "GROUPING_CONFIG =
     \<lparr>SIZE_THRESHOLDS =
        [(Num 25600, ''small''), (Num 102400, ''medium''), (Num 409600, ''large''),
         (PosInfinity, ''xlarge'')],
      ASPECT_RATIO_THRESHOLDS =
        [(Num (1 / 2), ''tall''), (Num (3 / 2), ''normal''), (PosInfinity, ''wide'')],
      MAX_IMAGES_PER_GROUP = 50,
      MAX_AREA_PER_GROUP = 2048 * 1024\<rparr>"

record group =
  gname :: string
  gitems :: "item list"
  gstrategy :: string

text \<open>The first threshold the value is strictly below, or the fallback name.\<close>

fun first_below :: "jsnum \<Rightarrow> (jsnum \<times> string) list \<Rightarrow> string \<Rightarrow> string" where
  "first_below v [] fallback = fallback"
| "first_below v (t # ts) fallback = (if js_gt (fst t) v then snd t else first_below v ts fallback)"

definition getSizeCategory :: "grouping_config \<Rightarrow> rat \<Rightarrow> string" where
  "getSizeCategory cfg area = first_below (Num area) (SIZE_THRESHOLDS cfg) ''xlarge''"

definition getAspectRatioCategory :: "grouping_config \<Rightarrow> rat \<Rightarrow> rat \<Rightarrow> string" where
  "getAspectRatioCategory cfg w h =
     first_below (js_div (min w h) (max w h)) (ASPECT_RATIO_THRESHOLDS cfg) ''wide''"

definition getStrategyForSize :: "string \<Rightarrow> string" where
  "getStrategyForSize sizeName =
     (if sizeName = ''small'' then ''maxEdge''
      else if sizeName = ''medium'' then ''perimeter''
      else if sizeName = ''large'' then ''area''
      else if sizeName = ''xlarge'' then ''maxEdge''
      else ''area'')"

definition mergeStrategies :: "string \<Rightarrow> string \<Rightarrow> string" where
  "mergeStrategies strategy1 strategy2 = (if strategy1 = strategy2 then strategy1 else ''area'')"

text \<open>
  \<open>if (!groups[key]) groups[key] = []; groups[key].push(img)\<close> on an object whose
  entries are listed in insertion order.
\<close>

fun push_to :: "string \<Rightarrow> item \<Rightarrow> (string \<times> item list) list \<Rightarrow> (string \<times> item list) list" where
  "push_to k img [] = [(k, [img])]"
| "push_to k img (e # es) = (if fst e = k then (fst e, snd e @ [img]) # es else e # push_to k img es)"

definition groupBySize :: "grouping_config \<Rightarrow> item list \<Rightarrow> group list" where
  "groupBySize cfg images =
     map (\<lambda>e. \<lparr>gname = fst e, gitems = snd e, gstrategy = getStrategyForSize (fst e)\<rparr>)
       (foldl (\<lambda>groups img. push_to (getSizeCategory cfg (width img * height img)) img groups)
          [] images)"

definition refineGroup :: "grouping_config \<Rightarrow> group \<Rightarrow> group list" where
  "refineGroup cfg g =
     map (\<lambda>e. \<lparr>gname = fst e, gitems = snd e, gstrategy = gstrategy g\<rparr>)
       (foldl (\<lambda>aspectGroups img.
                 push_to (gname g @ ''_'' @ getAspectRatioCategory cfg (width img) (height img))
                   img aspectGroups)
          [] (gitems g))"

definition refineGroupsByAspectRatio :: "grouping_config \<Rightarrow> group list \<Rightarrow> group list" where
  "refineGroupsByAspectRatio cfg sizeGroups = concat (map (refineGroup cfg) sizeGroups)"

text \<open>
  The loop \<open>while (smallGroups.length > 1)\<close>: two groups are shifted off the front and
  their merge is pushed on \<open>mergedGroups\<close>. The result is the groups pushed and what is
  left of \<open>smallGroups\<close>.
\<close>

fun merge_pairs :: "group list \<Rightarrow> group list \<times> group list" where
  "merge_pairs (group1 # group2 # rest) =
     (let r = merge_pairs rest
      in (\<lparr>gname = gname group1 @ ''+'' @ gname group2,
           gitems = gitems group1 @ gitems group2,
           gstrategy = mergeStrategies (gstrategy group1) (gstrategy group2)\<rparr> # fst r, snd r))"
| "merge_pairs smallGroups = ([], smallGroups)"

definition mergeSmallGroups :: "group list \<Rightarrow> group list" where
  "mergeSmallGroups groups =
     (let smallGroups = filter (\<lambda>g. length (gitems g) < 5) groups;
          largeGroups = filter (\<lambda>g. \<not> length (gitems g) < 5) groups;
          r = merge_pairs smallGroups;
          mergedGroups = largeGroups @ fst r
      in case snd r of
           [] \<Rightarrow> mergedGroups
         | leftover # _ \<Rightarrow>
             (case mergedGroups of
                [] \<Rightarrow> [leftover]
              | g0 # gs \<Rightarrow> g0\<lparr>gitems := gitems g0 @ gitems leftover\<rparr> # gs))"

text \<open>
  \<open>splitByArea\<close>: the loop state is \<open>groups\<close>, \<open>currentGroup\<close> and \<open>currentArea\<close>.
\<close>

definition split_step ::
    "rat \<Rightarrow> group list \<times> item list \<times> rat \<Rightarrow> item \<Rightarrow> group list \<times> item list \<times> rat" where
  "split_step maxArea st it =
     (let groups = fst st; currentGroup = fst (snd st); currentArea = snd (snd st);
          itemArea = width it * height it
      in if currentArea + itemArea > maxArea \<and> currentGroup \<noteq> [] then
           (groups @ [\<lparr>gname = ''split_group'', gitems = currentGroup, gstrategy = ''area''\<rparr>],
            [it], itemArea)
         else (groups, currentGroup @ [it], currentArea + itemArea))"

definition splitByArea :: "item list \<Rightarrow> rat \<Rightarrow> group list" where
  "splitByArea its maxArea =
     (let st = foldl (split_step maxArea) ([], [], 0) its
      in if fst (snd st) \<noteq> []
         then fst st @ [\<lparr>gname = ''split_group'', gitems = fst (snd st), gstrategy = ''area''\<rparr>]
         else fst st)"

text \<open>
  The loop \<open>while (remainingItems.length > 0)\<close> of \<open>limitGroupSize\<close> for one group, with
  \<open>limitedGroups\<close> as the accumulator. With \<open>MAX_IMAGES_PER_GROUP = 0\<close> the
  \<open>splice(0, 0)\<close> removes nothing and the loop never ends, so the function is partial:
  \<open>None\<close> is "does not return".
\<close>

partial_function (option) limit_loop ::
    "grouping_config \<Rightarrow> group \<Rightarrow> item list \<Rightarrow> group list \<Rightarrow> group list option" where
  "limit_loop cfg g remainingItems limitedGroups =
     (if remainingItems = [] then Some limitedGroups
      else
        (let batchItems = take (MAX_IMAGES_PER_GROUP cfg) remainingItems;
             currentArea = foldl (\<lambda>sum img. sum + width img * height img) 0 batchItems
         in limit_loop cfg g (drop (MAX_IMAGES_PER_GROUP cfg) remainingItems)
              (if currentArea > MAX_AREA_PER_GROUP cfg
               then limitedGroups @ splitByArea batchItems (MAX_AREA_PER_GROUP cfg)
               else limitedGroups @
                      [\<lparr>gname = gname g, gitems = batchItems, gstrategy = gstrategy g\<rparr>])))"

declare limit_loop.simps [code]

fun limitGroupSize_from :: "grouping_config \<Rightarrow> group list \<Rightarrow> group list \<Rightarrow> group list option" where
  "limitGroupSize_from cfg [] limitedGroups = Some limitedGroups"
| "limitGroupSize_from cfg (g # groups) limitedGroups =
     (case limit_loop cfg g (gitems g) limitedGroups of
        None \<Rightarrow> None
      | Some limitedGroups' \<Rightarrow> limitGroupSize_from cfg groups limitedGroups')"

definition limitGroupSize :: "grouping_config \<Rightarrow> group list \<Rightarrow> group list option" where
  "limitGroupSize cfg groups = limitGroupSize_from cfg groups []"

definition groupImages :: "grouping_config \<Rightarrow> item list \<Rightarrow> group list option" where
  "groupImages cfg images =
     (if images = [] then Some []
      else
        (let sizeGroups = groupBySize cfg images;
             refinedGroups = refineGroupsByAspectRatio cfg sizeGroups;
             mergedGroups = mergeSmallGroups refinedGroups
         in limitGroupSize cfg mergedGroups))"

section \<open>smartAlgorithmSelector.js: recordResult\<close>

text \<open>
  The selector's state. \<open>statistics\<close> has the two keys \<open>maxRectangles\<close> and \<open>shelf\<close>;
  the time \<open>Date.now()\<close> that \<open>recordHistory\<close> reads is an argument here. The constructor
  gives each algorithm the four properties \<open>usage\<close>, \<open>successRate\<close>, \<open>efficiencies\<close> and
  \<open>avgEfficiency\<close>; \<open>resetStatistics()\<close> gives it the first two only, so the last two
  are optional: \<open>None\<close> is \<open>undefined\<close>.
\<close>

record alg_stats =
  usage :: nat
  successRate :: rat
  efficiencies :: "rat list option"
  avgEfficiency :: "rat option"

record history_record =
  h_algorithm :: string
  h_success :: bool
  h_efficiency :: rat
  h_timestamp :: int

record selector =
  stat_maxRectangles :: alg_stats
  stat_shelf :: alg_stats
  history :: "history_record list"
  maxHistorySize :: nat

definition new_selector :: selector where
  "new_selector =
     \<lparr>stat_maxRectangles =
        \<lparr>usage = 0, successRate = 0, efficiencies = Some [], avgEfficiency = Some 0\<rparr>,
      stat_shelf =
        \<lparr>usage = 0, successRate = 0, efficiencies = Some [], avgEfficiency = Some 0\<rparr>,
      history = [], maxHistorySize = 50\<rparr>"

definition resetStatistics :: "selector \<Rightarrow> selector" where
  "resetStatistics sel =
     sel\<lparr>stat_maxRectangles :=
           \<lparr>usage = 0, successRate = 0, efficiencies = None, avgEfficiency = None\<rparr>,
         stat_shelf :=
           \<lparr>usage = 0, successRate = 0, efficiencies = None, avgEfficiency = None\<rparr>\<rparr>"

text \<open>
  The update of \<open>this.statistics[algorithm]\<close>. With \<open>efficiencies\<close> undefined,
  \<open>.efficiencies.push(efficiency)\<close> throws a \<open>TypeError\<close>; \<open>usage++\<close> has been done by then,
  so the error comes with the statistics as the throw leaves them.
\<close>

datatype js_error = TypeError

definition recordStats :: "alg_stats \<Rightarrow> bool \<Rightarrow> rat \<Rightarrow> (js_error \<times> alg_stats) + alg_stats" where
  "recordStats st success efficiency =
     (let st1 = st\<lparr>usage := usage st + 1\<rparr>
      in case (if success \<and> efficiency > 0 then
                 (case efficiencies st1 of
                    None \<Rightarrow> Inl (TypeError, st1)
                  | Some buffer \<Rightarrow>
                      (let pushed = buffer @ [efficiency];
                           kept = (if length pushed > 50 then tl pushed else pushed)
                       in Inr (st1\<lparr>efficiencies := Some kept,
                                   avgEfficiency :=
                                     Some (foldl (+) 0 kept / of_nat (length kept))\<rparr>)))
               else Inr st1) of
           Inl thrown \<Rightarrow> Inl thrown
         | Inr st2 \<Rightarrow>
             (let totalUsage = usage st2;
                  currentSuccessRate = successRate st2
              in if success
                 then Inr (st2\<lparr>successRate :=
                        (currentSuccessRate * (of_nat totalUsage - 1) + 1) / of_nat totalUsage\<rparr>)
                 else Inr (st2\<lparr>successRate :=
                        (currentSuccessRate * (of_nat totalUsage - 1)) / of_nat totalUsage\<rparr>)))"

definition recordHistory :: "selector \<Rightarrow> string \<Rightarrow> bool \<Rightarrow> rat \<Rightarrow> int \<Rightarrow> selector" where
  "recordHistory sel algorithm success efficiency now =
     (let pushed = history sel @
            [\<lparr>h_algorithm = algorithm, h_success = success, h_efficiency = efficiency,
              h_timestamp = now\<rparr>]
      in sel\<lparr>history := (if length pushed > maxHistorySize sel then tl pushed else pushed)\<rparr>)"

text \<open>
  \<open>recordResult\<close>: \<open>Inr\<close> is the state when the call returns, \<open>Inl\<close> the error thrown with
  the state at the throw (no history record has been written then).
\<close>

definition recordResult ::
  "selector \<Rightarrow> string \<Rightarrow> bool \<Rightarrow> rat \<Rightarrow> int \<Rightarrow> (js_error \<times> selector) + selector" where
  "recordResult sel algorithm success efficiency now =
     (if algorithm = ''maxRectangles'' then
        (case recordStats (stat_maxRectangles sel) success efficiency of
           Inl (thrown, st) \<Rightarrow> Inl (thrown, sel\<lparr>stat_maxRectangles := st\<rparr>)
         | Inr st \<Rightarrow>
             Inr (recordHistory (sel\<lparr>stat_maxRectangles := st\<rparr>) algorithm success efficiency now))
      else if algorithm = ''shelf'' then
        (case recordStats (stat_shelf sel) success efficiency of
           Inl (thrown, st) \<Rightarrow> Inl (thrown, sel\<lparr>stat_shelf := st\<rparr>)
         | Inr st \<Rightarrow>
             Inr (recordHistory (sel\<lparr>stat_shelf := st\<rparr>) algorithm success efficiency now))
      else Inr sel)"

section \<open>Vocabulary of the properties\<close>

subsection \<open>recordResult\<close>

text \<open>
  The words of the specification: the \<open>n\<close> most recent entries of a buffer, the mean of
  a buffer, the statistics of an algorithm. A selector has its buffers when both
  algorithms have an efficiency buffer of at most 50 entries and the history has at
  most 50 entries, with the cap 50: true of a new selector, and kept by every call of
  \<open>recordResult\<close> that returns from such a state, but not true after \<open>resetStatistics()\<close>.
\<close>

definition last_n :: "nat \<Rightarrow> 'a list \<Rightarrow> 'a list" where
  "last_n n xs = drop (length xs - n) xs"

definition mean :: "rat list \<Rightarrow> rat" where
  "mean xs = sum_list xs / of_nat (length xs)"

definition stat_of :: "selector \<Rightarrow> string \<Rightarrow> alg_stats" where
  "stat_of sel algorithm =
     (if algorithm = ''maxRectangles'' then stat_maxRectangles sel else stat_shelf sel)"

definition has_buffer :: "alg_stats \<Rightarrow> bool" where
  "has_buffer st = (case efficiencies st of None \<Rightarrow> False | Some buffer \<Rightarrow> length buffer \<le> 50)"

definition wf_selector :: "selector \<Rightarrow> bool" where
  "wf_selector sel \<longleftrightarrow>
     maxHistorySize sel = 50 \<and> length (history sel) \<le> 50 \<and>
     has_buffer (stat_maxRectangles sel) \<and> has_buffer (stat_shelf sel)"

subsection \<open>ImageGrouper\<close>

text \<open>
  All items of a group list, in order, and a sample input: four images, one in each
  size tier.
\<close>

definition all_items :: "group list \<Rightarrow> item list" where
  "all_items groups = concat (map gitems groups)"

definition tier_items :: "item list" where
  "tier_items =
     [\<lparr>name = ''a'', width = 10, height = 10\<rparr>,
      \<lparr>name = ''b'', width = 200, height = 200\<rparr>,
      \<lparr>name = ''c'', width = 400, height = 400\<rparr>,
      \<lparr>name = ''d'', width = 1000, height = 1000\<rparr>]"

subsection \<open>Best-Short-Side-Fit\<close>

text \<open>
  A free rectangle fits a padded size; its leftovers; the order "smaller short side,
  then smaller long side"; and a best rectangle of a free list: one that fits and is
  least in that order among those that fit. \<open>placed_frame\<close> is the frame of an item
  placed at a rectangle's origin in an orientation.
\<close>

definition fits :: "rect \<Rightarrow> rat \<Rightarrow> rat \<Rightarrow> bool" where
  "fits r w h \<longleftrightarrow> rwidth r \<ge> w \<and> rheight r \<ge> h"

definition shortSideFit :: "rect \<Rightarrow> rat \<Rightarrow> rat \<Rightarrow> rat" where
  "shortSideFit r w h = min (rwidth r - w) (rheight r - h)"

definition longSideFit :: "rect \<Rightarrow> rat \<Rightarrow> rat \<Rightarrow> rat" where
  "longSideFit r w h = max (rwidth r - w) (rheight r - h)"

definition bssf_le :: "rat \<Rightarrow> rat \<Rightarrow> rect \<Rightarrow> rect \<Rightarrow> bool" where
  "bssf_le w h r r' \<longleftrightarrow>
     shortSideFit r w h < shortSideFit r' w h \<or>
     (shortSideFit r w h = shortSideFit r' w h \<and> longSideFit r w h \<le> longSideFit r' w h)"

definition bssf_best :: "rect list \<Rightarrow> rat \<Rightarrow> rat \<Rightarrow> rect \<Rightarrow> bool" where
  "bssf_best freeRects w h r \<longleftrightarrow>
     r \<in> set freeRects \<and> fits r w h \<and>
     (\<forall>r' \<in> set freeRects. fits r' w h \<longrightarrow> bssf_le w h r r')"

definition zero_node :: rect where
  "zero_node = \<lparr>rx = 0, ry = 0, rwidth = 0, rheight = 0\<rparr>"

definition placed_frame :: "item \<Rightarrow> rect \<Rightarrow> bool \<Rightarrow> frame" where
  "placed_frame it r rot =
     \<lparr>fname = name it, x = rx r, y = ry r,
      fwidth = (if rot then height it else width it),
      fheight = (if rot then width it else height it),
      originalWidth = width it, originalHeight = height it, rotated = rot\<rparr>"

text \<open>The state of the search loop after a prefix of the free rectangles.\<close>

definition bssf_inv :: "rect list \<Rightarrow> rat \<Rightarrow> rat \<Rightarrow> rect \<times> (rat \<times> rat) option \<Rightarrow> bool" where
  "bssf_inv rs w h st \<longleftrightarrow>
     (case snd st of
        None \<Rightarrow> fst st = zero_node \<and> (\<forall>r \<in> set rs. \<not> fits r w h)
      | Some sl \<Rightarrow>
          (\<exists>r. bssf_best rs w h r \<and> sl = (shortSideFit r w h, longSideFit r w h) \<and>
               fst st = \<lparr>rx = rx r, ry = ry r, rwidth = w, rheight = h\<rparr>))"

definition sq100 :: item where "sq100 = \<lparr>name = ''sq100'', width = 100, height = 100\<rparr>"
definition wide300 :: item where "wide300 = \<lparr>name = ''wide300'', width = 300, height = 100\<rparr>"
definition big300 :: item where "big300 = \<lparr>name = ''big300'', width = 300, height = 300\<rparr>"

subsection \<open>Candidates on existing shelves\<close>

text \<open>
  A candidate is a shelf index and an orientation; \<open>cand_w\<close> and \<open>cand_h\<close> are the placed
  width and height of the item in that orientation.
\<close>

definition cand_w :: "item \<Rightarrow> bool \<Rightarrow> rat" where
  "cand_w it rot = (if rot then height it else width it)"

definition cand_h :: "item \<Rightarrow> bool \<Rightarrow> rat" where
  "cand_h it rot = (if rot then width it else height it)"

definition cand_eligible :: "rat \<Rightarrow> rat \<Rightarrow> shelf list \<Rightarrow> item \<Rightarrow> nat \<Rightarrow> bool \<Rightarrow> bool" where
  "cand_eligible padding maxWidth shs it i rot \<longleftrightarrow>
     i < length shs \<and> eligible padding maxWidth (shs ! i) (cand_w it rot) (cand_h it rot)"

definition cand_score :: "rat \<Rightarrow> rat \<Rightarrow> shelf list \<Rightarrow> item \<Rightarrow> nat \<Rightarrow> bool \<Rightarrow> rat" where
  "cand_score padding maxWidth shs it i rot =
     shelfScore padding maxWidth (shs ! i) (cand_w it rot) (cand_h it rot)"

text \<open>The state of the candidate loop after the shelves with an index below \<open>k\<close>.\<close>

definition best_inv :: "rat \<Rightarrow> rat \<Rightarrow> shelf list \<Rightarrow> item \<Rightarrow> (nat \<times> bool) set \<Rightarrow> best_shelf \<Rightarrow> bool" where
  "best_inv padding maxWidth shs it S best \<longleftrightarrow>
     (case best of
        None \<Rightarrow> (\<forall>c \<in> S. \<not> cand_eligible padding maxWidth shs it (fst c) (snd c))
      | Some (i, rot, score, waste) \<Rightarrow>
          (i, rot) \<in> S \<and> cand_eligible padding maxWidth shs it i rot \<and>
          score = cand_score padding maxWidth shs it i rot \<and>
          waste = sheight (shs ! i) - cand_h it rot \<and>
          (\<forall>c \<in> S. cand_eligible padding maxWidth shs it (fst c) (snd c) \<longrightarrow>
             cand_score padding maxWidth shs it (fst c) (snd c) \<le> score))"

definition two_shelves :: sh_state where
  "two_shelves =
     \<lparr>sframes = [],
      shelves = [\<lparr>sy = 2, sheight = 100, currentX = 104, smaxWidth = 512\<rparr>,
                 \<lparr>sy = 104, sheight = 60, currentX = 300, smaxWidth = 512\<rparr>],
      newImages = [], placedThisRound = False\<rparr>"

definition it50x60 :: item where
  "it50x60 = \<lparr>name = ''it50x60'', width = 50, height = 60\<rparr>"

subsection \<open>Layouts\<close>

text \<open>
  The padded bounding box of a frame as a set of points,
  \<open>[x, x + width + padding) \<times> [y, y + height + padding)\<close>; a frame list has no overlap
  when the boxes of two different positions never meet. \<open>positive_items\<close> is the
  input contract on dimensions.
\<close>

definition padded_box :: "rat \<Rightarrow> frame \<Rightarrow> (rat \<times> rat) set" where
  "padded_box padding f =
     {(a, b). x f \<le> a \<and> a < x f + fwidth f + padding \<and> y f \<le> b \<and> b < y f + fheight f + padding}"

definition no_overlap :: "rat \<Rightarrow> frame list \<Rightarrow> bool" where
  "no_overlap padding fs \<longleftrightarrow>
     (\<forall>i j. i < j \<and> j < length fs \<longrightarrow> padded_box padding (fs ! i) \<inter> padded_box padding (fs ! j) = {})"

definition positive_items :: "item list \<Rightarrow> bool" where
  "positive_items images \<longleftrightarrow> (\<forall>it \<in> set images. 0 < width it \<and> 0 < height it)"

text \<open>The coordinate test for two padded frames lying apart, horizontally or vertically.\<close>

definition apart :: "rat \<Rightarrow> frame \<Rightarrow> frame \<Rightarrow> bool" where
  "apart padding f g \<longleftrightarrow>
     x f + fwidth f + padding \<le> x g \<or> x g + fwidth g + padding \<le> x f \<or>
     y f + fheight f + padding \<le> y g \<or> y g + fheight g + padding \<le> y f"

text \<open>
  The invariant of the Shelf packer. Frames carry no shelf in the source; the
  invariant speaks of a list that pairs every frame with the index of the shelf it
  was placed on.
\<close>

definition band :: "frame \<Rightarrow> shelf \<Rightarrow> bool" where
  "band f s \<longleftrightarrow> sy s \<le> y f \<and> y f + fheight f \<le> sy s + sheight s"

definition shelves_ok :: "rat \<Rightarrow> shelf list \<Rightarrow> bool" where
  "shelves_ok padding shs \<longleftrightarrow>
     (\<forall>i < length shs. padding \<le> sy (shs ! i) \<and> 0 < sheight (shs ! i) \<and> padding \<le> currentX (shs ! i)) \<and>
     (\<forall>i j. i < j \<and> j < length shs \<longrightarrow> sy (shs ! i) + sheight (shs ! i) + padding \<le> sy (shs ! j))"

definition frame_ok :: "rat \<Rightarrow> shelf list \<Rightarrow> frame \<times> nat \<Rightarrow> bool" where
  "frame_ok padding shs fk \<longleftrightarrow>
     snd fk < length shs \<and> 0 < fwidth (fst fk) \<and> 0 < fheight (fst fk) \<and> padding \<le> x (fst fk) \<and>
     band (fst fk) (shs ! snd fk) \<and>
     x (fst fk) + fwidth (fst fk) + padding \<le> currentX (shs ! snd fk)"

definition left_of :: "rat \<Rightarrow> frame \<times> nat \<Rightarrow> frame \<times> nat \<Rightarrow> bool" where
  "left_of padding fk gk \<longleftrightarrow>
     (snd fk = snd gk \<longrightarrow> x (fst fk) + fwidth (fst fk) + padding \<le> x (fst gk))"

definition sh_inv :: "rat \<Rightarrow> (frame \<times> nat) list \<Rightarrow> sh_state \<Rightarrow> bool" where
  "sh_inv padding fks st \<longleftrightarrow>
     map fst fks = sframes st \<and> shelves_ok padding (shelves st) \<and>
     (\<forall>fk \<in> set fks. frame_ok padding (shelves st) fk) \<and>
     sorted_wrt (left_of padding) fks"

text \<open>The move of the frames on the last shelf when a shelf is merged.\<close>

definition shift_frame :: "rat \<Rightarrow> rat \<Rightarrow> frame \<Rightarrow> frame" where
  "shift_frame lastY yOffset f = (if y f = lastY then f\<lparr>y := y f + yOffset\<rparr> else f)"

text \<open>The input item a frame was made from.\<close>

definition frame_item :: "frame \<Rightarrow> item" where
  "frame_item f = \<lparr>name = fname f, width = originalWidth f, height = originalHeight f\<rparr>"

subsection \<open>The MaxRectangles invariant\<close>

text \<open>
  The invariant of \<open>maxRectanglesPack\<close>: the used rectangles are the padded frames, free
  rectangles start at non-negative coordinates and lie apart from every used
  rectangle, and the used rectangles lie apart from each other. \<open>rdisj\<close> is the test
  by which \<open>splitFreeRectangle\<close> decides that two rectangles do not overlap.
\<close>

definition rdisj :: "rect \<Rightarrow> rect \<Rightarrow> bool" where
  "rdisj f u \<longleftrightarrow>
     rx u \<ge> rx f + rwidth f \<or> rx u + rwidth u \<le> rx f \<or>
     ry u \<ge> ry f + rheight f \<or> ry u + rheight u \<le> ry f"

definition used_of :: "rat \<Rightarrow> frame \<Rightarrow> rect" where
  "used_of padding f = \<lparr>rx = x f, ry = y f, rwidth = fwidth f + padding, rheight = fheight f + padding\<rparr>"

definition rot_ok :: "frame \<Rightarrow> bool" where
  "rot_ok f \<longleftrightarrow>
     (if rotated f then fwidth f = originalHeight f \<and> fheight f = originalWidth f
      else fwidth f = originalWidth f \<and> fheight f = originalHeight f)"

definition mr_inv :: "rat \<Rightarrow> mr_state \<Rightarrow> bool" where
  "mr_inv padding st \<longleftrightarrow>
     usedRectangles st = map (used_of padding) (mframes st) \<and>
     (\<forall>r \<in> set (freeRectangles st). 0 \<le> rx r \<and> 0 \<le> ry r) \<and>
     (\<forall>r \<in> set (freeRectangles st). \<forall>u \<in> set (usedRectangles st). rdisj r u) \<and>
     sorted_wrt rdisj (usedRectangles st) \<and>
     (\<forall>f \<in> set (mframes st). 0 \<le> x f \<and> 0 \<le> y f \<and> rot_ok f)"

text \<open>What \<open>split_loop\<close> leaves in the list: rectangles it did not reach, rectangles that do
  not overlap the used one, and nodes pushed by a split.\<close>

definition split_result :: "rect list \<Rightarrow> rect \<Rightarrow> rect set" where
  "split_result rs u =
     {r \<in> set rs. splitFreeRectangle r u = None} \<union>
     {r. \<exists>f \<in> set rs. \<exists>new. splitFreeRectangle f u = Some new \<and> r \<in> set new}"

subsection \<open>Good layouts and the grid search\<close>

text \<open>
  What both packers guarantee of a layout they return for \<open>images\<close>: the frames are the
  images in order, no two padded boxes meet, every frame has positive size at
  non-negative coordinates, and the layout's size is the bounding box of the padded
  frames.
\<close>

definition good_layout :: "rat \<Rightarrow> item list \<Rightarrow> layout \<Rightarrow> bool" where
  "good_layout padding images L \<longleftrightarrow>
     map frame_item (frames L) = images \<and> no_overlap padding (frames L) \<and>
     (\<forall>f \<in> set (frames L). 0 \<le> x f \<and> 0 \<le> y f \<and> 0 < fwidth f \<and> 0 < fheight f) \<and>
     lwidth L = maxRight padding (frames L) \<and> lheight L = maxBottom padding (frames L)"

definition contained :: "layout \<Rightarrow> bool" where
  "contained L \<longleftrightarrow>
     (\<forall>f \<in> set (frames L). 0 \<le> x f \<and> 0 \<le> y f \<and>
        x f + fwidth f \<le> lwidth L \<and> y f + fheight f \<le> lheight L)"

definition layout_area :: "layout \<Rightarrow> rat" where
  "layout_area L = lwidth L * lheight L"

definition layout_efficiency :: "item list \<Rightarrow> layout \<Rightarrow> rat" where
  "layout_efficiency images L = totalArea images / layout_area L * 100"

text \<open>
  The state of the grid loop after the runs \<open>gs\<close>: untouched while every run has
  failed, and otherwise holding a successful run's layout of least area, with its area
  and layout_efficiency.
\<close>

definition best_ok :: "item list \<Rightarrow> ('g \<Rightarrow> layout option) \<Rightarrow> 'g list \<Rightarrow> best_state \<Rightarrow> bool" where
  "best_ok images run gs st \<longleftrightarrow>
     (if \<forall>g \<in> set gs. run g = None then st = best_init
      else \<exists>L. bestResult st = Some L \<and> (\<exists>g \<in> set gs. run g = Some L) \<and>
             bestArea st = Num (layout_area L) \<and>
             bestEfficiency st = Num (layout_efficiency images L) \<and>
             (\<forall>g \<in> set gs. \<forall>L'. run g = Some L' \<longrightarrow> layout_area L \<le> layout_area L'))"

subsection \<open>Sample inputs and their layouts\<close>

definition three_items :: "item list" where
  "three_items =
     [\<lparr>name = ''a'', width = 100, height = 100\<rparr>,
      \<lparr>name = ''b'', width = 150, height = 80\<rparr>,
      \<lparr>name = ''c'', width = 120, height = 120\<rparr>]"

definition mr_three :: layout where
  "mr_three =
     \<lparr>frames =
       [\<lparr>fname = ''a'', x = 0, y = 0, fwidth = 100, fheight = 100,
         originalWidth = 100, originalHeight = 100, rotated = False\<rparr>,
        \<lparr>fname = ''b'', x = 102, y = 0, fwidth = 150, fheight = 80,
         originalWidth = 150, originalHeight = 80, rotated = False\<rparr>,
        \<lparr>fname = ''c'', x = 102, y = 82, fwidth = 120, fheight = 120,
         originalWidth = 120, originalHeight = 120, rotated = False\<rparr>],
      lwidth = 254, lheight = 204\<rparr>"

definition shelf_three :: layout where
  "shelf_three =
     \<lparr>frames =
       [\<lparr>fname = ''a'', x = 2, y = 12, fwidth = 100, fheight = 100,
         originalWidth = 100, originalHeight = 100, rotated = False\<rparr>,
        \<lparr>fname = ''b'', x = 104, y = 12, fwidth = 150, fheight = 80,
         originalWidth = 150, originalHeight = 80, rotated = False\<rparr>,
        \<lparr>fname = ''c'', x = 256, y = 2, fwidth = 120, fheight = 120,
         originalWidth = 120, originalHeight = 120, rotated = False\<rparr>],
      lwidth = 378, lheight = 124\<rparr>"

definition big_item :: "item list" where
  "big_item = [\<lparr>name = ''big'', width = 3000, height = 3000\<rparr>]"

definition one_item :: "item list" where
  "one_item = [\<lparr>name = ''dot'', width = 10, height = 10\<rparr>]"

definition mr_one :: layout where
  "mr_one = \<lparr>frames =
     [\<lparr>fname = ''dot'', x = 0, y = 0, fwidth = 10, fheight = 10,
         originalWidth = 10, originalHeight = 10, rotated = False\<rparr>],
     lwidth = 16, lheight = 16\<rparr>"

definition shelf_one :: layout where
  "shelf_one = \<lparr>frames =
     [\<lparr>fname = ''dot'', x = 2, y = 2, fwidth = 10, fheight = 10,
         originalWidth = 10, originalHeight = 10, rotated = False\<rparr>],
     lwidth = 16, lheight = 16\<rparr>"

subsection \<open>The passes of the Shelf packer, in the words of the specification\<close>




section \<open>MaxRectangles: the placement rule\<close>

lemma bssf_le_refl: "bssf_le w h r r"
  by (simp add: bssf_le_def)

lemma bssf_le_trans: "bssf_le w h a b \<Longrightarrow> bssf_le w h b c \<Longrightarrow> bssf_le w h a c"
  by (auto simp: bssf_le_def)

lemma bssf_le_total: "bssf_le w h a b \<or> bssf_le w h b a"
  by (auto simp: bssf_le_def)

lemma bssf_step_unfit: "\<not> fits r w h \<Longrightarrow> bssf_step w h st r = st"
  by (auto simp: bssf_step_def fits_def)

lemma bssf_step_fit:
  assumes "fits r w h"
  shows "bssf_step w h st r =
     (if (case snd st of
            None \<Rightarrow> True
          | Some (bestShortSideFit, bestLongSideFit) \<Rightarrow>
              shortSideFit r w h < bestShortSideFit \<or>
              (shortSideFit r w h = bestShortSideFit \<and> longSideFit r w h < bestLongSideFit))
      then (\<lparr>rx = rx r, ry = ry r, rwidth = w, rheight = h\<rparr>,
            Some (shortSideFit r w h, longSideFit r w h))
      else st)"
proof -
  have c: "(rwidth r \<ge> w \<and> rheight r \<ge> h) = True"
    using assms by (simp add: fits_def)
  have a: "\<bar>rwidth r - w\<bar> = rwidth r - w" "\<bar>rheight r - h\<bar> = rheight r - h"
    using assms by (simp_all add: fits_def)
  show ?thesis
    by (simp only: bssf_step_def Let_def shortSideFit_def longSideFit_def a c if_True)
qed

lemma bssf_step_inv:
  assumes "bssf_inv rs w h st"
  shows "bssf_inv (rs @ [r]) w h (bssf_step w h st r)"
proof (cases "fits r w h")
  case False
  show ?thesis using assms False unfolding bssf_step_unfit[OF False] bssf_inv_def bssf_best_def
    by (auto split: option.splits)
next
  case True
  show ?thesis
  proof (cases "snd st")
    case None
    then have step: "bssf_step w h st r =
        (\<lparr>rx = rx r, ry = ry r, rwidth = w, rheight = h\<rparr>, Some (shortSideFit r w h, longSideFit r w h))"
      by (simp add: bssf_step_fit[OF True])
    have "bssf_best (rs @ [r]) w h r"
      using assms None True by (auto simp: bssf_inv_def bssf_best_def bssf_le_refl)
    then show ?thesis unfolding step bssf_inv_def by auto
  next
    case (Some sl)
    with assms obtain b where b: "bssf_best rs w h b"
      and sl: "sl = (shortSideFit b w h, longSideFit b w h)"
      and node: "fst st = \<lparr>rx = rx b, ry = ry b, rwidth = w, rheight = h\<rparr>"
      by (auto simp: bssf_inv_def)
    show ?thesis
    proof (cases "shortSideFit r w h < shortSideFit b w h \<or>
                  (shortSideFit r w h = shortSideFit b w h \<and> longSideFit r w h < longSideFit b w h)")
      case better: True
      then have step: "bssf_step w h st r =
          (\<lparr>rx = rx r, ry = ry r, rwidth = w, rheight = h\<rparr>, Some (shortSideFit r w h, longSideFit r w h))"
        using Some sl by (simp add: bssf_step_fit[OF True])
      have rb: "bssf_le w h r b" using better by (auto simp: bssf_le_def)
      have "bssf_best (rs @ [r]) w h r"
        using b True rb unfolding bssf_best_def
        by (auto simp: bssf_le_refl intro: bssf_le_trans)
      then show ?thesis unfolding step bssf_inv_def by auto
    next
      case worse: False
      then have step: "bssf_step w h st r = st"
        using Some sl by (auto simp: bssf_step_fit[OF True])
      have br: "bssf_le w h b r" using worse by (auto simp: bssf_le_def)
      have "bssf_best (rs @ [r]) w h b"
        using b True br unfolding bssf_best_def by auto
      then show ?thesis unfolding step bssf_inv_def using Some sl node by auto
    qed
  qed
qed

lemma bssf_fold_inv:
  "bssf_inv rs w h (foldl (bssf_step w h) (zero_node, None) rs)"
proof (induction rs rule: rev_induct)
  case Nil
  then show ?case by (simp add: bssf_inv_def)
next
  case (snoc r rs)
  then show ?case by (simp add: bssf_step_inv)
qed

lemma find_none:
  assumes "\<forall>r \<in> set freeRects. \<not> fits r w h"
  shows "findPositionForNewNodeBestShortSideFit freeRects w h = zero_node"
  using bssf_fold_inv[of freeRects w h] assms
  by (auto simp: findPositionForNewNodeBestShortSideFit_def bssf_inv_def bssf_best_def
      zero_node_def split: option.splits)

lemma find_some:
  assumes "\<exists>r \<in> set freeRects. fits r w h"
  shows "\<exists>r. bssf_best freeRects w h r \<and>
             findPositionForNewNodeBestShortSideFit freeRects w h =
               \<lparr>rx = rx r, ry = ry r, rwidth = w, rheight = h\<rparr>"
  using bssf_fold_inv[of freeRects w h] assms
  by (auto simp: findPositionForNewNodeBestShortSideFit_def bssf_inv_def
      zero_node_def split: option.splits)

lemma mr_loop_append:
  "mr_loop padding (pre @ post) st =
     (case mr_loop padding pre st of None \<Rightarrow> None | Some st' \<Rightarrow> mr_loop padding post st')"
  by (induction pre arbitrary: st) (auto split: option.splits)


lemma mr_place_unrotated:
  assumes "0 < height it + padding"
    and "\<exists>r \<in> set (freeRectangles st). fits r (width it + padding) (height it + padding)"
  shows "\<exists>r st'. bssf_best (freeRectangles st) (width it + padding) (height it + padding) r \<and>
           mr_place padding st it = Some st' \<and>
           mframes st' = mframes st @ [placed_frame it r False]"
proof -
  from find_some[OF assms(2)] obtain r where
    r: "bssf_best (freeRectangles st) (width it + padding) (height it + padding) r"
    and f: "findPositionForNewNodeBestShortSideFit (freeRectangles st) (width it + padding) (height it + padding)
            = \<lparr>rx = rx r, ry = ry r, rwidth = width it + padding, rheight = height it + padding\<rparr>"
    by blast
  have "mr_place padding st it \<noteq> None \<and> mframes (the (mr_place padding st it)) = mframes st @ [placed_frame it r False]"
    using assms(1) by (simp add: mr_place_def f Let_def placed_frame_def)
  with r show ?thesis by auto
qed

lemma mr_place_rotated:
  assumes "0 < width it + padding"
    and "\<forall>r \<in> set (freeRectangles st). \<not> fits r (width it + padding) (height it + padding)"
    and "\<exists>r \<in> set (freeRectangles st). fits r (height it + padding) (width it + padding)"
  shows "\<exists>r st'. bssf_best (freeRectangles st) (height it + padding) (width it + padding) r \<and>
           mr_place padding st it = Some st' \<and>
           mframes st' = mframes st @ [placed_frame it r True]"
proof -
  from find_some[OF assms(3)] obtain r where
    r: "bssf_best (freeRectangles st) (height it + padding) (width it + padding) r"
    and f: "findPositionForNewNodeBestShortSideFit (freeRectangles st) (height it + padding) (width it + padding)
            = \<lparr>rx = rx r, ry = ry r, rwidth = height it + padding, rheight = width it + padding\<rparr>"
    by blast
  have "mr_place padding st it \<noteq> None \<and> mframes (the (mr_place padding st it)) = mframes st @ [placed_frame it r True]"
    using assms(1) by (simp add: mr_place_def f find_none[OF assms(2)] zero_node_def Let_def placed_frame_def)
  with r show ?thesis by auto
qed

lemma mr_place_nofit:
  assumes "\<forall>r \<in> set (freeRectangles st). \<not> fits r (width it + padding) (height it + padding)"
    and "\<forall>r \<in> set (freeRectangles st). \<not> fits r (height it + padding) (width it + padding)"
  shows "mr_place padding st it = None"
  by (simp add: mr_place_def find_none[OF assms(1)] find_none[OF assms(2)] zero_node_def)

lemma pack_nofit:
  assumes "mr_place padding st it = None" and "mr_loop padding pre (mr_init maxWidth) = Some st"
  shows "maxRectanglesPack (pre @ it # post) padding maxWidth = None"
  using assms by (simp add: maxRectanglesPack_def mr_loop_append)

text \<open>
  Claim C4. In a placement step of \<open>maxRectanglesPack\<close> (item sizes positive with the
  padding added): when some free rectangle fits the unrotated padded size, the item is
  placed unrotated at the origin of a free rectangle that fits and minimises the short
  leftover, ties broken by the smaller long leftover; the rotated search decides only
  when no rectangle fits unrotated, and then places the item rotated at the origin of
  a best rectangle for the swapped size; and when neither orientation fits, the step
  returns \<open>null\<close> and so does the whole attempt.
\<close>

theorem mr_place_best_short_side_fit:
  assumes "0 < width it + padding" and "0 < height it + padding"
  shows
    "((\<exists>r \<in> set (freeRectangles st). fits r (width it + padding) (height it + padding)) \<longrightarrow>
        (\<exists>r st'. bssf_best (freeRectangles st) (width it + padding) (height it + padding) r \<and>
           mr_place padding st it = Some st' \<and>
           mframes st' = mframes st @ [placed_frame it r False])) \<and>
     ((\<forall>r \<in> set (freeRectangles st). \<not> fits r (width it + padding) (height it + padding)) \<and>
      (\<exists>r \<in> set (freeRectangles st). fits r (height it + padding) (width it + padding)) \<longrightarrow>
        (\<exists>r st'. bssf_best (freeRectangles st) (height it + padding) (width it + padding) r \<and>
           mr_place padding st it = Some st' \<and>
           mframes st' = mframes st @ [placed_frame it r True])) \<and>
     ((\<forall>r \<in> set (freeRectangles st). \<not> fits r (width it + padding) (height it + padding)) \<and>
      (\<forall>r \<in> set (freeRectangles st). \<not> fits r (height it + padding) (width it + padding)) \<longrightarrow>
        mr_place padding st it = None \<and>
        (\<forall>pre post maxWidth. mr_loop padding pre (mr_init maxWidth) = Some st \<longrightarrow>
           maxRectanglesPack (pre @ it # post) padding maxWidth = None))"
  using mr_place_unrotated[OF assms(2)] mr_place_rotated[OF assms(1)] mr_place_nofit pack_nofit
  by blast

theorem mr_place_best_short_side_fit_witness:
  "(\<exists>r st'. bssf_best (freeRectangles (mr_init 256)) 102 102 r \<and>
      mr_place 2 (mr_init 256) sq100 = Some st' \<and> mframes st' = [placed_frame sq100 r False]) \<and>
   (\<exists>r st'. bssf_best (freeRectangles (mr_init 256)) 102 302 r \<and>
      mr_place 2 (mr_init 256) wide300 = Some st' \<and> mframes st' = [placed_frame wide300 r True]) \<and>
   mr_place 2 (mr_init 256) big300 = None \<and>
   maxRectanglesPack [big300, sq100] 2 256 = None"
proof -
  have a: "(\<exists>r st'. bssf_best (freeRectangles (mr_init 256)) 102 102 r \<and>
      mr_place 2 (mr_init 256) sq100 = Some st' \<and> mframes st' = [placed_frame sq100 r False])"
    using mr_place_best_short_side_fit[of sq100 2 "mr_init 256"]
    by (simp add: sq100_def mr_init_def fits_def)
  have b: "(\<exists>r st'. bssf_best (freeRectangles (mr_init 256)) 102 302 r \<and>
      mr_place 2 (mr_init 256) wide300 = Some st' \<and> mframes st' = [placed_frame wide300 r True])"
    using mr_place_best_short_side_fit[of wide300 2 "mr_init 256"]
    by (simp add: wide300_def mr_init_def fits_def)
  have c: "mr_place 2 (mr_init 256) big300 = None \<and>
        (\<forall>pre post maxWidth. mr_loop 2 pre (mr_init maxWidth) = Some (mr_init 256) \<longrightarrow>
           maxRectanglesPack (pre @ big300 # post) 2 maxWidth = None)"
    using mr_place_best_short_side_fit[of big300 2 "mr_init 256"]
    by (simp add: big300_def mr_init_def fits_def)
  then have "maxRectanglesPack ([] @ big300 # [sq100]) 2 256 = None"
    by (metis mr_loop.simps(1))
  with a b c show ?thesis by simp
qed

section \<open>Shelf: the choice among existing shelves\<close>

lemma try_orientation_inv:
  assumes "best_inv padding maxWidth shs it S best" and "i < length shs"
  shows "best_inv padding maxWidth shs it (insert (i, rot) S)
           (try_orientation padding maxWidth i (shs ! i) rot (cand_w it rot) (cand_h it rot) best)"
proof (cases "eligible padding maxWidth (shs ! i) (cand_w it rot) (cand_h it rot)")
  case False
  then have "try_orientation padding maxWidth i (shs ! i) rot (cand_w it rot) (cand_h it rot) best = best"
    by (simp add: try_orientation_def)
  moreover have "\<not> cand_eligible padding maxWidth shs it i rot"
    using False by (simp add: cand_eligible_def)
  ultimately show ?thesis using assms(1)
    by (auto simp: best_inv_def split: option.splits)
next
  case True
  then have el: "cand_eligible padding maxWidth shs it i rot"
    using assms(2) by (simp add: cand_eligible_def)
  let ?score = "cand_score padding maxWidth shs it i rot"
  let ?waste = "sheight (shs ! i) - cand_h it rot"
  have step: "try_orientation padding maxWidth i (shs ! i) rot (cand_w it rot) (cand_h it rot) best =
      (if better ?score ?waste best then Some (i, rot, ?score, ?waste) else best)"
    using True by (simp add: try_orientation_def Let_def cand_score_def)
  show ?thesis
  proof (cases best)
    case None
    then show ?thesis unfolding step using assms(1) el
      by (auto simp: better_def best_inv_def)
  next
    case (Some b)
    obtain bi brot bscore bwaste where b: "b = (bi, brot, bscore, bwaste)"
      by (cases b) auto
    show ?thesis
    proof (cases "better ?score ?waste best")
      case True
      then have "bscore \<le> ?score" using Some b by (auto simp: better_def)
      then show ?thesis unfolding step using assms(1) el True Some b
        by (auto simp: best_inv_def)
    next
      case False
      then have "?score \<le> bscore" using Some b by (auto simp: better_def)
      then show ?thesis unfolding step using assms(1) el False Some b
        by (auto simp: best_inv_def)
    qed
  qed
qed

lemma shelf_step_inv:
  assumes "best_inv padding maxWidth shs it S best" and "i < length shs"
  shows "best_inv padding maxWidth shs it (insert (i, True) (insert (i, False) S))
           (shelf_step padding maxWidth it best (i, shs ! i))"
  using try_orientation_inv[OF try_orientation_inv[OF assms, of False] assms(2), of True]
  by (simp add: shelf_step_def cand_w_def cand_h_def)

lemma zip_upt_take_Suc:
  assumes "k < length shs"
  shows "zip [0 ..< Suc k] (take (Suc k) shs) = zip [0 ..< k] (take k shs) @ [(k, shs ! k)]"
  using assms by (simp add: take_Suc_conv_app_nth)

lemma findBestShelf_prefix_inv:
  "k \<le> length shs \<Longrightarrow>
   best_inv padding maxWidth shs it {c. fst c < k}
     (foldl (shelf_step padding maxWidth it) None (zip [0 ..< k] (take k shs)))"
proof (induction k)
  case 0
  then show ?case by (simp add: best_inv_def)
next
  case (Suc k)
  then have k: "k < length shs" by simp
  have set_eq: "{c :: nat \<times> bool. fst c < Suc k} = insert (k, True) (insert (k, False) {c. fst c < k})"
    by (auto simp: less_Suc_eq)
  show ?case
    unfolding zip_upt_take_Suc[OF k] set_eq foldl_append foldl_Cons foldl_Nil
    using shelf_step_inv[OF Suc.IH k] k by simp
qed

lemma findBestShelf_inv:
  "best_inv padding maxWidth shs it {c. fst c < length shs} (findBestShelf padding maxWidth shs it)"
  using findBestShelf_prefix_inv[of "length shs" shs padding maxWidth it]
  by (simp add: findBestShelf_def)

lemma findBestShelf_None:
  "findBestShelf padding maxWidth shs it = None \<longleftrightarrow>
     (\<forall>i rot. \<not> cand_eligible padding maxWidth shs it i rot)"
  using findBestShelf_inv[of padding maxWidth shs it]
  by (auto simp: best_inv_def cand_eligible_def split: option.splits)

lemma findBestShelf_Some:
  assumes "findBestShelf padding maxWidth shs it = Some (i, rot, score, waste)"
  shows "cand_eligible padding maxWidth shs it i rot \<and>
         score = cand_score padding maxWidth shs it i rot \<and>
         waste = sheight (shs ! i) - cand_h it rot \<and>
         (\<forall>j rot'. cand_eligible padding maxWidth shs it j rot' \<longrightarrow>
            cand_score padding maxWidth shs it j rot' \<le> score)"
  using findBestShelf_inv[of padding maxWidth shs it] assms
  by (auto simp: best_inv_def cand_eligible_def)

lemma eligible_denominator:
  assumes "eligible padding maxWidth s pw ph" and "0 < pw" and "0 < ph"
    and "0 \<le> padding" and "0 \<le> currentX s"
  shows "maxWidth * sheight s \<noteq> 0"
  using assms by (auto simp: eligible_def remainingWidth_def)


lemma eligible_precheck:
  assumes "cand_eligible padding maxWidth shs it i rot"
    and "0 \<le> padding" and "\<forall>s \<in> set shs. 0 \<le> currentX s"
  shows "\<not> (width it > maxWidth \<and> height it > maxWidth)"
proof -
  have "shs ! i \<in> set shs" using assms(1) by (simp add: cand_eligible_def)
  then have "0 \<le> currentX (shs ! i)" using assms(3) by blast
  then have "cand_w it rot \<le> maxWidth"
    using assms(1,2) by (simp add: cand_eligible_def eligible_def remainingWidth_def)
  then show ?thesis by (cases rot) (auto simp: cand_w_def)
qed

text \<open>
  Claim C6. For an item of positive size, padding \<open>\<ge> 0\<close> and shelves whose cursor is not
  negative: a (shelf, orientation) candidate is eligible exactly if the placed width
  is at most the shelf's remaining width \<open>maxWidth - currentX - padding\<close> and the placed
  height at most the shelf's height; an eligible candidate's score is
  \<open>-2 * verticalWaste - 0.1 * horizontalLeftover + 10 * shelfUtilization + 0.05 * shelfY\<close>
  with \<open>verticalWaste = shelfHeight - placedHeight\<close> (its division is by a non-zero
  number); the search finds nothing exactly if no candidate is eligible, and otherwise
  finds an eligible candidate whose score is the highest of all eligible candidates
  over all shelves and both orientations, and the item is placed there.
\<close>

theorem shelf_candidate_choice:
  assumes "0 < width it" and "0 < height it" and "0 \<le> padding"
    and "\<forall>s \<in> set (shelves st). 0 \<le> currentX s"
  shows
    "(\<forall>s pw ph. eligible padding maxWidth s pw ph \<longleftrightarrow>
        pw \<le> maxWidth - currentX s - padding \<and> ph \<le> sheight s) \<and>
     (\<forall>s pw ph. shelfScore padding maxWidth s pw ph =
        - 2 * (sheight s - ph) - (1 / 10) * ((maxWidth - currentX s - padding) - pw)
        + 10 * ((currentX s * sheight s) / (maxWidth * sheight s)) + (1 / 20) * sy s) \<and>
     (\<forall>i rot. cand_eligible padding maxWidth (shelves st) it i rot \<longrightarrow>
        maxWidth * sheight (shelves st ! i) \<noteq> 0) \<and>
     (findBestShelf padding maxWidth (shelves st) it = None \<longleftrightarrow>
        (\<forall>i rot. \<not> cand_eligible padding maxWidth (shelves st) it i rot)) \<and>
     (\<forall>i rot score waste.
        findBestShelf padding maxWidth (shelves st) it = Some (i, rot, score, waste) \<longrightarrow>
          cand_eligible padding maxWidth (shelves st) it i rot \<and>
          score = cand_score padding maxWidth (shelves st) it i rot \<and>
          (\<forall>j rot'. cand_eligible padding maxWidth (shelves st) it j rot' \<longrightarrow>
             cand_score padding maxWidth (shelves st) it j rot' \<le> score) \<and>
          sh_place padding maxWidth st it = Some (placeOnShelf padding st it i rot))"
proof -
  have a: "\<forall>s pw ph. eligible padding maxWidth s pw ph \<longleftrightarrow>
        pw \<le> maxWidth - currentX s - padding \<and> ph \<le> sheight s"
    by (simp add: eligible_def remainingWidth_def)
  have b: "\<forall>s pw ph. shelfScore padding maxWidth s pw ph =
        - 2 * (sheight s - ph) - (1 / 10) * ((maxWidth - currentX s - padding) - pw)
        + 10 * ((currentX s * sheight s) / (maxWidth * sheight s)) + (1 / 20) * sy s"
    by (simp add: shelfScore_def remainingWidth_def Let_def)
  have c: "\<forall>i rot. cand_eligible padding maxWidth (shelves st) it i rot \<longrightarrow>
        maxWidth * sheight (shelves st ! i) \<noteq> 0"
  proof (intro allI impI)
    fix i rot
    assume el: "cand_eligible padding maxWidth (shelves st) it i rot"
    then have "shelves st ! i \<in> set (shelves st)" by (simp add: cand_eligible_def)
    then have cx: "0 \<le> currentX (shelves st ! i)" using assms(4) by blast
    have pos: "0 < cand_w it rot" "0 < cand_h it rot"
      using assms(1,2) by (simp_all add: cand_w_def cand_h_def)
    from el have "eligible padding maxWidth (shelves st ! i) (cand_w it rot) (cand_h it rot)"
      by (simp add: cand_eligible_def)
    from eligible_denominator[OF this pos assms(3) cx]
    show "maxWidth * sheight (shelves st ! i) \<noteq> 0" .
  qed
  have d: "\<forall>i rot score waste.
        findBestShelf padding maxWidth (shelves st) it = Some (i, rot, score, waste) \<longrightarrow>
          cand_eligible padding maxWidth (shelves st) it i rot \<and>
          score = cand_score padding maxWidth (shelves st) it i rot \<and>
          (\<forall>j rot'. cand_eligible padding maxWidth (shelves st) it j rot' \<longrightarrow>
             cand_score padding maxWidth (shelves st) it j rot' \<le> score) \<and>
          sh_place padding maxWidth st it = Some (placeOnShelf padding st it i rot)"
  proof (intro allI impI)
    fix i rot score waste
    assume f: "findBestShelf padding maxWidth (shelves st) it = Some (i, rot, score, waste)"
    note s = findBestShelf_Some[OF f]
    from s have el: "cand_eligible padding maxWidth (shelves st) it i rot" by blast
    have "sh_place padding maxWidth st it = Some (placeOnShelf padding st it i rot)"
      using eligible_precheck[OF el assms(3,4)] f by (simp add: sh_place_def)
    with s show "cand_eligible padding maxWidth (shelves st) it i rot \<and>
          score = cand_score padding maxWidth (shelves st) it i rot \<and>
          (\<forall>j rot'. cand_eligible padding maxWidth (shelves st) it j rot' \<longrightarrow>
             cand_score padding maxWidth (shelves st) it j rot' \<le> score) \<and>
          sh_place padding maxWidth st it = Some (placeOnShelf padding st it i rot)"
      by blast
  qed
  from a b c d findBestShelf_None[of padding maxWidth "shelves st" it] show ?thesis
    by blast
qed

lemma two_shelves_best:
  "findBestShelf 2 512 (shelves two_shelves) it50x60 = Some (1, False, -1581 / 320, 0)"
  by (simp add: findBestShelf_def two_shelves_def it50x60_def shelf_step_def try_orientation_def
      eligible_def remainingWidth_def shelfScore_def better_def Let_def upt_rec)

theorem shelf_candidate_choice_witness:
  "findBestShelf 2 512 (shelves two_shelves) it50x60 = Some (1, False, -1581 / 320, 0) \<and>
   cand_eligible 2 512 (shelves two_shelves) it50x60 0 True \<and>
   cand_score 2 512 (shelves two_shelves) it50x60 0 True \<le> -1581 / 320 \<and>
   sframes (the (sh_place 2 512 two_shelves it50x60)) =
     [\<lparr>fname = ''it50x60'', x = 300, y = 104, fwidth = 50, fheight = 60,
       originalWidth = 50, originalHeight = 60, rotated = False\<rparr>]"
proof -
  have h: "0 < width it50x60" "0 < height it50x60" "(0::rat) \<le> 2"
    "\<forall>s \<in> set (shelves two_shelves). 0 \<le> currentX s"
    by (simp_all add: it50x60_def two_shelves_def)
  have el: "cand_eligible 2 512 (shelves two_shelves) it50x60 0 True"
    by (simp add: cand_eligible_def eligible_def remainingWidth_def two_shelves_def it50x60_def
        cand_w_def cand_h_def)
  from shelf_candidate_choice[OF h, of 512] two_shelves_best
  have "(\<forall>j rot'. cand_eligible 2 512 (shelves two_shelves) it50x60 j rot' \<longrightarrow>
           cand_score 2 512 (shelves two_shelves) it50x60 j rot' \<le> -1581 / 320) \<and>
        sh_place 2 512 two_shelves it50x60 = Some (placeOnShelf 2 two_shelves it50x60 1 False)"
    by blast
  with el two_shelves_best show ?thesis
    by (simp add: placeOnShelf_def two_shelves_def it50x60_def Let_def)
qed

section \<open>Shelf: the invariant of a sweep\<close>

lemma apart_disjoint: "apart padding f g \<Longrightarrow> padded_box padding f \<inter> padded_box padding g = {}"
  by (auto simp: apart_def padded_box_def)

lemma no_overlap_sorted_wrt:
  "sorted_wrt (apart padding) fs \<Longrightarrow> no_overlap padding fs"
  by (auto simp: no_overlap_def sorted_wrt_iff_nth_less apart_disjoint)

lemma frame_ok_apart:
  assumes "shelves_ok padding shs" and "frame_ok padding shs fk" and "frame_ok padding shs gk"
    and "left_of padding fk gk"
  shows "apart padding (fst fk) (fst gk)"
proof (cases "snd fk = snd gk")
  case True
  then show ?thesis using assms(4) by (simp add: left_of_def apart_def)
next
  case False
  then consider "snd fk < snd gk" | "snd gk < snd fk" by linarith
  then show ?thesis
  proof cases
    case 1
    then have "sy (shs ! snd fk) + sheight (shs ! snd fk) + padding \<le> sy (shs ! snd gk)"
      using assms(1,3) by (simp add: shelves_ok_def frame_ok_def)
    then show ?thesis using assms(2,3) by (auto simp: frame_ok_def band_def apart_def)
  next
    case 2
    then have "sy (shs ! snd gk) + sheight (shs ! snd gk) + padding \<le> sy (shs ! snd fk)"
      using assms(1,2) by (simp add: shelves_ok_def frame_ok_def)
    then show ?thesis using assms(2,3) by (auto simp: frame_ok_def band_def apart_def)
  qed
qed

lemma sh_inv_no_overlap:
  assumes "sh_inv padding fks st"
  shows "no_overlap padding (sframes st)"
proof -
  have "sorted_wrt (\<lambda>fk gk. apart padding (fst fk) (fst gk)) fks"
    using assms
    by (auto simp: sh_inv_def intro!: sorted_wrt_mono_rel[of fks "left_of padding"]
        intro: frame_ok_apart)
  then have "sorted_wrt (apart padding) (map fst fks)"
    by (simp add: sorted_wrt_map)
  then show ?thesis using assms by (simp add: sh_inv_def no_overlap_sorted_wrt)
qed

lemma sh_inv_nonneg:
  assumes "sh_inv padding fks st" and "0 \<le> padding" and "f \<in> set (sframes st)"
  shows "0 \<le> x f \<and> 0 \<le> y f \<and> 0 < fwidth f \<and> 0 < fheight f"
proof -
  from assms(1,3) have "f \<in> fst ` set fks"
    by (metis sh_inv_def set_map)
  then obtain k where fk: "(f, k) \<in> set fks"
    by auto
  with assms(1) have ok: "frame_ok padding (shelves st) (f, k)" and sh: "shelves_ok padding (shelves st)"
    by (auto simp: sh_inv_def)
  then have "padding \<le> sy (shelves st ! k)" by (simp add: shelves_ok_def frame_ok_def)
  with ok assms(2) show ?thesis by (auto simp: frame_ok_def band_def)
qed


lemma frame_ok_mono:
  assumes "frame_ok padding shs fk" and "length shs' = length shs"
    and "\<forall>k < length shs. sy (shs' ! k) = sy (shs ! k) \<and> sheight (shs ! k) \<le> sheight (shs' ! k) \<and>
           currentX (shs ! k) \<le> currentX (shs' ! k)"
  shows "frame_ok padding shs' fk"
proof -
  have k: "snd fk < length shs" using assms(1) by (simp add: frame_ok_def)
  with assms(3) have "sy (shs' ! snd fk) = sy (shs ! snd fk)"
    "sheight (shs ! snd fk) \<le> sheight (shs' ! snd fk)"
    "currentX (shs ! snd fk) \<le> currentX (shs' ! snd fk)" by simp_all
  then show ?thesis using assms(1,2) by (auto simp: frame_ok_def band_def)
qed

lemma frame_ok_append:
  assumes "frame_ok padding shs fk"
  shows "frame_ok padding (shs @ [s]) fk"
  using assms by (auto simp: frame_ok_def nth_append)

lemma sh_inv_placeOnShelf:
  assumes inv: "sh_inv padding fks st"
    and el: "cand_eligible padding maxWidth (shelves st) it i rot"
    and pos: "0 < width it" "0 < height it" and pad: "0 \<le> padding"
  shows "sh_inv padding
           (fks @ [(\<lparr>fname = name it, x = currentX (shelves st ! i), y = sy (shelves st ! i),
                     fwidth = cand_w it rot, fheight = cand_h it rot,
                     originalWidth = width it, originalHeight = height it, rotated = rot\<rparr>, i)])
           (placeOnShelf padding st it i rot)"
proof -
  let ?shs = "shelves st"
  let ?s = "?shs ! i"
  let ?pw = "cand_w it rot" and ?ph = "cand_h it rot"
  let ?shs' = "?shs[i := ?s\<lparr>currentX := currentX ?s + ?pw + padding\<rparr>]"
  let ?new = "\<lparr>fname = name it, x = currentX ?s, y = sy ?s, fwidth = ?pw, fheight = ?ph,
                originalWidth = width it, originalHeight = height it, rotated = rot\<rparr>"
  have i: "i < length ?shs" and fitw: "?pw \<le> maxWidth - currentX ?s - padding"
    and fith: "?ph \<le> sheight ?s"
    using el by (simp_all add: cand_eligible_def eligible_def remainingWidth_def)
  have pwh: "0 < ?pw" "0 < ?ph" using pos by (simp_all add: cand_w_def cand_h_def)
  have shs: "shelves_ok padding ?shs" and fr: "\<forall>fk \<in> set fks. frame_ok padding ?shs fk"
    and srt: "sorted_wrt (left_of padding) fks" and m: "map fst fks = sframes st"
    using inv by (simp_all add: sh_inv_def)
  have st': "placeOnShelf padding st it i rot =
      st\<lparr>sframes := sframes st @ [?new], shelves := ?shs', placedThisRound := True\<rparr>"
    by (simp add: placeOnShelf_def Let_def cand_w_def cand_h_def)
  have grow: "\<forall>k < length ?shs. sy (?shs' ! k) = sy (?shs ! k) \<and> sheight (?shs ! k) \<le> sheight (?shs' ! k) \<and>
           currentX (?shs ! k) \<le> currentX (?shs' ! k)"
    using pwh pad i by (auto simp: nth_list_update)
  have same: "\<forall>k < length ?shs. sheight (?shs' ! k) = sheight (?shs ! k)"
    using i by (auto simp: nth_list_update)
  have shs': "shelves_ok padding ?shs'"
    unfolding shelves_ok_def
  proof (intro conjI allI impI)
    fix k assume k: "k < length ?shs'"
    then have k': "k < length ?shs" by simp
    from shs k' have "padding \<le> sy (?shs ! k)" "0 < sheight (?shs ! k)" "padding \<le> currentX (?shs ! k)"
      by (simp_all add: shelves_ok_def)
    with grow same k' show "padding \<le> sy (?shs' ! k)" "0 < sheight (?shs' ! k)" "padding \<le> currentX (?shs' ! k)"
      by (force)+
  next
    fix a b assume ab: "a < b \<and> b < length ?shs'"
    then have ab': "a < b \<and> b < length ?shs" by simp
    with shs have "sy (?shs ! a) + sheight (?shs ! a) + padding \<le> sy (?shs ! b)"
      by (simp add: shelves_ok_def)
    moreover have "sy (?shs' ! a) = sy (?shs ! a)" "sheight (?shs' ! a) = sheight (?shs ! a)"
      "sy (?shs' ! b) = sy (?shs ! b)"
      using grow same ab' by simp_all
    ultimately show "sy (?shs' ! a) + sheight (?shs' ! a) + padding \<le> sy (?shs' ! b)" by simp
  qed
  have old: "\<forall>fk \<in> set fks. frame_ok padding ?shs' fk"
    using fr grow by (auto intro: frame_ok_mono)
  have si: "padding \<le> currentX ?s" using shs i by (simp add: shelves_ok_def)
  have new: "frame_ok padding ?shs' (?new, i)"
    using i pwh si fith by (simp add: frame_ok_def band_def)
  have left: "\<forall>fk \<in> set fks. left_of padding fk (?new, i)"
    using fr by (auto simp: left_of_def frame_ok_def)
  show ?thesis
    unfolding sh_inv_def st'
    using m shs' old new srt left by (simp add: sorted_wrt_append)
qed

lemma sh_inv_createShelf:
  assumes inv: "sh_inv padding fks st"
    and pos: "0 < width it" "0 < height it" and pad: "0 \<le> padding"
    and opt: "cand_h it rot \<le> optHeight"
    and newY: "newY = (if shelves st \<noteq> []
                  then sy (last (shelves st)) + sheight (last (shelves st)) + padding
                  else padding)"
  shows "sh_inv padding
           (fks @ [(\<lparr>fname = name it, x = padding, y = newY + (optHeight - cand_h it rot) / 2,
                     fwidth = cand_w it rot, fheight = cand_h it rot,
                     originalWidth = width it, originalHeight = height it, rotated = rot\<rparr>,
                    length (shelves st))])
           (createShelf padding maxWidth st it rot newY optHeight)"
proof -
  let ?shs = "shelves st"
  let ?pw = "cand_w it rot" and ?ph = "cand_h it rot"
  let ?ns = "\<lparr>sy = newY, sheight = optHeight, currentX = padding + ?pw + padding, smaxWidth = maxWidth\<rparr>"
  let ?shs' = "?shs @ [?ns]"
  let ?new = "\<lparr>fname = name it, x = padding, y = newY + (optHeight - ?ph) / 2,
                fwidth = ?pw, fheight = ?ph,
                originalWidth = width it, originalHeight = height it, rotated = rot\<rparr>"
  have pwh: "0 < ?pw" "0 < ?ph" using pos by (simp_all add: cand_w_def cand_h_def)
  have shs: "shelves_ok padding ?shs" and fr: "\<forall>fk \<in> set fks. frame_ok padding ?shs fk"
    and srt: "sorted_wrt (left_of padding) fks" and m: "map fst fks = sframes st"
    using inv by (simp_all add: sh_inv_def)
  have st': "createShelf padding maxWidth st it rot newY optHeight =
      st\<lparr>sframes := sframes st @ [?new], shelves := ?shs', placedThisRound := True\<rparr>"
    by (simp add: createShelf_def Let_def cand_w_def cand_h_def)
  have below: "\<forall>k < length ?shs. sy (?shs ! k) + sheight (?shs ! k) + padding \<le> newY"
  proof (intro allI impI)
    fix k assume k: "k < length ?shs"
    then have ne: "?shs \<noteq> []" by auto
    then have l: "last ?shs = ?shs ! (length ?shs - 1)" by (simp add: last_conv_nth)
    show "sy (?shs ! k) + sheight (?shs ! k) + padding \<le> newY"
    proof (cases "k = length ?shs - 1")
      case True
      then show ?thesis using ne l newY by simp
    next
      case False
      with k have "k < length ?shs - 1 \<and> length ?shs - 1 < length ?shs" by arith
      with shs have "sy (?shs ! k) + sheight (?shs ! k) + padding \<le> sy (?shs ! (length ?shs - 1))"
        by (simp add: shelves_ok_def)
      moreover have "0 < sheight (?shs ! (length ?shs - 1))"
        using shs ne by (simp add: shelves_ok_def)
      ultimately show ?thesis using ne l newY pad by simp
    qed
  qed
  have ny: "padding \<le> newY"
  proof (cases "?shs = []")
    case True
    then show ?thesis using newY by simp
  next
    case False
    then have "0 < length ?shs" by simp
    with below have "sy (?shs ! 0) + sheight (?shs ! 0) + padding \<le> newY" by blast
    moreover have "padding \<le> sy (?shs ! 0)" "0 < sheight (?shs ! 0)"
      using shs False by (simp_all add: shelves_ok_def)
    ultimately show ?thesis using pad by simp
  qed
  have shs': "shelves_ok padding ?shs'"
    unfolding shelves_ok_def
  proof (intro conjI allI impI)
    fix k assume k: "k < length ?shs'"
    show "padding \<le> sy (?shs' ! k)" "0 < sheight (?shs' ! k)" "padding \<le> currentX (?shs' ! k)"
      using k shs ny pwh opt pad by (auto simp: nth_append shelves_ok_def)
  next
    fix a b assume ab: "a < b \<and> b < length ?shs'"
    show "sy (?shs' ! a) + sheight (?shs' ! a) + padding \<le> sy (?shs' ! b)"
    proof (cases "b < length ?shs")
      case True
      then show ?thesis using ab shs by (simp add: nth_append shelves_ok_def)
    next
      case False
      with ab have b: "b = length ?shs" and a: "a < length ?shs" by simp_all
      then show ?thesis using below by (simp add: nth_append)
    qed
  qed
  have old: "\<forall>fk \<in> set fks. frame_ok padding ?shs' fk"
    using fr by (auto intro: frame_ok_append)
  have half: "0 \<le> (optHeight - ?ph) / 2" "(optHeight - ?ph) / 2 + ?ph \<le> optHeight"
    using opt by (simp_all add: field_simps)
  have new: "frame_ok padding ?shs' (?new, length ?shs)"
    using pwh half by (simp add: frame_ok_def band_def add.assoc)
  have left: "\<forall>fk \<in> set fks. left_of padding fk (?new, length ?shs)"
    using fr by (auto simp: left_of_def frame_ok_def)
  show ?thesis
    unfolding sh_inv_def st'
    using m shs' old new srt left by (simp add: sorted_wrt_append)
qed


lemma sh_inv_mergeIntoLast:
  assumes inv: "sh_inv padding fks st"
    and pos: "0 < width it" "0 < height it" and pad: "0 \<le> padding"
    and ne: "shelves st \<noteq> []"
    and taller: "sheight (last (shelves st)) < cand_h it rot"
    and opt: "cand_h it rot \<le> optHeight"
  shows "sh_inv padding
           (map (\<lambda>fk. (shift_frame (sy (last (shelves st)))
                          ((optHeight - sheight (last (shelves st))) / 2) (fst fk), snd fk)) fks @
            [(\<lparr>fname = name it, x = currentX (last (shelves st)),
               y = sy (last (shelves st)) + (optHeight - cand_h it rot) / 2,
               fwidth = cand_w it rot, fheight = cand_h it rot,
               originalWidth = width it, originalHeight = height it, rotated = rot\<rparr>,
              length (shelves st) - 1)])
           (mergeIntoLast padding st it rot optHeight)"
proof -
  let ?shs = "shelves st"
  let ?n = "length ?shs - 1"
  let ?l = "last ?shs"
  let ?pw = "cand_w it rot" and ?ph = "cand_h it rot"
  let ?off = "(optHeight - sheight ?l) / 2"
  let ?shs' = "?shs[?n := ?l\<lparr>sheight := optHeight, currentX := currentX ?l + ?pw + padding\<rparr>]"
  let ?new = "\<lparr>fname = name it, x = currentX ?l, y = sy ?l + (optHeight - ?ph) / 2,
                fwidth = ?pw, fheight = ?ph,
                originalWidth = width it, originalHeight = height it, rotated = rot\<rparr>"
  let ?sh = "shift_frame (sy ?l) ?off"
  have n: "?n < length ?shs" and l: "?l = ?shs ! ?n"
    using ne by (simp_all add: last_conv_nth)
  have pwh: "0 < ?pw" "0 < ?ph" using pos by (simp_all add: cand_w_def cand_h_def)
  have shs: "shelves_ok padding ?shs" and fr: "\<forall>fk \<in> set fks. frame_ok padding ?shs fk"
    and srt: "sorted_wrt (left_of padding) fks" and m: "map fst fks = sframes st"
    using inv by (simp_all add: sh_inv_def)
  have lt: "sheight ?l < optHeight" using taller opt by simp
  then have mx: "max (sheight ?l) optHeight = optHeight"
    and ab: "\<bar>sheight ?l - optHeight\<bar> = optHeight - sheight ?l" by simp_all
  have off: "(optHeight - (optHeight - (optHeight - sheight ?l))) / 2 = ?off" by simp
  have st': "mergeIntoLast padding st it rot optHeight =
      st\<lparr>sframes := map ?sh (sframes st) @ [?new], shelves := ?shs', placedThisRound := True\<rparr>"
    unfolding mergeIntoLast_def Let_def mx ab off shift_frame_def cand_w_def cand_h_def ..
  have lok: "padding \<le> sy ?l" "0 < sheight ?l" "padding \<le> currentX ?l"
    using shs n l by (simp_all add: shelves_ok_def)
  have grow: "\<forall>k < length ?shs. sy (?shs' ! k) = sy (?shs ! k) \<and> sheight (?shs ! k) \<le> sheight (?shs' ! k) \<and>
           currentX (?shs ! k) \<le> currentX (?shs' ! k)"
    using pwh pad n l lt by (auto simp: nth_list_update)
  have same: "\<forall>k < length ?shs. k \<noteq> ?n \<longrightarrow> sheight (?shs' ! k) = sheight (?shs ! k)"
    using n by (auto simp: nth_list_update)
  have shs': "shelves_ok padding ?shs'"
    unfolding shelves_ok_def
  proof (intro conjI allI impI)
    fix k assume k: "k < length ?shs'"
    then have k': "k < length ?shs" by simp
    from shs k' have "padding \<le> sy (?shs ! k)" "0 < sheight (?shs ! k)" "padding \<le> currentX (?shs ! k)"
      by (simp_all add: shelves_ok_def)
    with grow k' show "padding \<le> sy (?shs' ! k)" "0 < sheight (?shs' ! k)" "padding \<le> currentX (?shs' ! k)"
      by force+
  next
    fix a b assume ab: "a < b \<and> b < length ?shs'"
    then have ab': "a < b \<and> b < length ?shs" and an: "a \<noteq> ?n" and a: "a < length ?shs" by auto
    with shs have "sy (?shs ! a) + sheight (?shs ! a) + padding \<le> sy (?shs ! b)"
      by (simp add: shelves_ok_def)
    moreover have "sy (?shs' ! a) = sy (?shs ! a)" "sheight (?shs' ! a) = sheight (?shs ! a)"
      "sy (?shs' ! b) = sy (?shs ! b)"
      using grow same ab' an a by simp_all
    ultimately show "sy (?shs' ! a) + sheight (?shs' ! a) + padding \<le> sy (?shs' ! b)" by simp
  qed
  have ln: "?shs' ! ?n = ?l\<lparr>sheight := optHeight, currentX := currentX ?l + ?pw + padding\<rparr>"
    using n by simp
  have old: "frame_ok padding ?shs' (?sh (fst fk), snd fk)" if fk: "fk \<in> set fks" for fk
  proof (cases "y (fst fk) = sy ?l")
    case False
    then have "?sh (fst fk) = fst fk" by (simp add: shift_frame_def)
    moreover have "frame_ok padding ?shs' fk"
      using fr fk grow by (auto intro: frame_ok_mono)
    ultimately show ?thesis by simp
  next
    case True
    have ok: "frame_ok padding ?shs fk" using fr fk by blast
    then have k: "snd fk < length ?shs" by (simp add: frame_ok_def)
    have kn: "snd fk = ?n"
    proof (rule ccontr)
      assume "snd fk \<noteq> ?n"
      with k have "snd fk < ?n \<and> ?n < length ?shs" by arith
      with shs have "sy (?shs ! snd fk) + sheight (?shs ! snd fk) + padding \<le> sy (?shs ! ?n)"
        by (simp add: shelves_ok_def)
      moreover have "y (fst fk) + fheight (fst fk) \<le> sy (?shs ! snd fk) + sheight (?shs ! snd fk)"
        "0 < fheight (fst fk)"
        using ok by (simp_all add: frame_ok_def band_def)
      ultimately show False using True l pad by simp
    qed
    have sf: "?sh (fst fk) = (fst fk)\<lparr>y := y (fst fk) + ?off\<rparr>"
      using True by (simp add: shift_frame_def)
    have b: "y (fst fk) + fheight (fst fk) \<le> sy ?l + sheight ?l"
      "x (fst fk) + fwidth (fst fk) + padding \<le> currentX ?l"
      "0 < fwidth (fst fk)" "0 < fheight (fst fk)" "padding \<le> x (fst fk)"
      using ok kn l by (simp_all add: frame_ok_def band_def)
    have h1: "0 \<le> ?off" using lt by simp
    have h2: "sheight ?l + ?off \<le> optHeight" using lt by (simp add: field_simps)
    show ?thesis
      unfolding sf frame_ok_def band_def
      using kn n ln b h1 h2 True pwh pad by simp
  qed
  have half: "0 \<le> (optHeight - ?ph) / 2" "(optHeight - ?ph) / 2 + ?ph \<le> optHeight"
    using opt by (simp_all add: field_simps)
  have new: "frame_ok padding ?shs' (?new, ?n)"
    using n ln pwh half lok by (simp add: frame_ok_def band_def add.assoc)
  have left: "left_of padding (?sh (fst fk), snd fk) (?new, ?n)" if "fk \<in> set fks" for fk
  proof -
    have "frame_ok padding ?shs fk" using fr that by blast
    then show ?thesis using l by (auto simp: left_of_def frame_ok_def shift_frame_def)
  qed
  have srt': "sorted_wrt (left_of padding) (map (\<lambda>fk. (?sh (fst fk), snd fk)) fks)"
    unfolding sorted_wrt_map
    by (rule sorted_wrt_mono_rel[OF _ srt]) (auto simp: left_of_def shift_frame_def)
  have m': "map fst (map (\<lambda>fk. (?sh (fst fk), snd fk)) fks) = map ?sh (sframes st)"
    unfolding m[symmetric] by (simp add: comp_def)
  show ?thesis
    unfolding sh_inv_def st'
    using m' shs' old new srt' left by (simp add: sorted_wrt_append)
qed

lemma height_fold_mem:
  "snd (foldl (height_step allImages) st hs) \<in> insert (snd st) (set hs)"
proof (induction hs arbitrary: st)
  case Nil
  then show ?case by simp
next
  case (Cons h hs)
  have "snd (height_step allImages st h) = snd st \<or> snd (height_step allImages st h) = h"
    by (simp add: height_step_def Let_def)
  with Cons[of "height_step allImages st h"] show ?case by auto
qed

lemma height_fold_ge:
  assumes "\<forall>h \<in> set hs. v \<le> h"
  shows "v \<le> snd (foldl (height_step allImages) (b, v) hs)"
  using height_fold_mem[of allImages "(b, v)" hs] assms by auto

lemma optimalHeight_ge: "placeHeight \<le> optimalHeight remainingImages it placeHeight"
  unfolding optimalHeight_def Let_def
proof (rule height_fold_ge)
  show "\<forall>h\<in>set (filter (\<lambda>h. placeHeight \<le> h \<and> h \<le> placeHeight * 2)
           [placeHeight, mostCommonHeight (map height (remainingImages @ [it])) placeHeight,
            medianHeight (map height (remainingImages @ [it])),
            fold max (map height remainingImages) (height it)]). placeHeight \<le> h"
    by (simp only: set_filter mem_Collect_eq) blast
qed

lemma frame_item_shift: "frame_item (shift_frame a b f) = frame_item f"
  by (simp add: frame_item_def shift_frame_def)

lemma openShelf_eq:
  "openShelf padding maxWidth st it =
      (if (if shelves st \<noteq> []
           then sy (last (shelves st)) + sheight (last (shelves st)) + padding
           else padding) > 4096 then None
       else if cand_w it (newShelfRotated padding maxWidth it) + padding > maxWidth then None
       else if shelves st \<noteq> [] \<and>
                \<bar>sheight (last (shelves st)) -
                  optimalHeight (newImages st) it (cand_h it (newShelfRotated padding maxWidth it))\<bar>
                  \<le> min (optimalHeight (newImages st) it (cand_h it (newShelfRotated padding maxWidth it)) * (1 / 4)) 48 \<and>
                currentX (last (shelves st)) + padding + cand_w it (newShelfRotated padding maxWidth it) \<le> maxWidth
       then Some (True, mergeIntoLast padding st it (newShelfRotated padding maxWidth it)
                    (optimalHeight (newImages st) it (cand_h it (newShelfRotated padding maxWidth it))))
       else Some (True, createShelf padding maxWidth st it (newShelfRotated padding maxWidth it)
                    (if shelves st \<noteq> []
                     then sy (last (shelves st)) + sheight (last (shelves st)) + padding
                     else padding)
                    (optimalHeight (newImages st) it (cand_h it (newShelfRotated padding maxWidth it)))))"
  unfolding openShelf_def Let_def cand_w_def cand_h_def ..

lemma placeOnShelf_flags:
  "newImages (placeOnShelf padding st it i rot) = newImages st \<and>
   placedThisRound (placeOnShelf padding st it i rot)"
  by (simp add: placeOnShelf_def Let_def)

lemma mergeIntoLast_flags:
  "newImages (mergeIntoLast padding st it rot h) = newImages st \<and>
   placedThisRound (mergeIntoLast padding st it rot h)"
  by (simp add: mergeIntoLast_def Let_def)

lemma createShelf_flags:
  "newImages (createShelf padding maxWidth st it rot newY h) = newImages st \<and>
   placedThisRound (createShelf padding maxWidth st it rot newY h)"
  by (simp add: createShelf_def Let_def)

lemma openShelf_flags:
  assumes "openShelf padding maxWidth st it = Some (placed, st')"
  shows "placed \<and> newImages st' = newImages st \<and> placedThisRound st'"
  using assms unfolding openShelf_eq
  by (auto simp: mergeIntoLast_flags createShelf_flags split: if_splits)

lemma sh_place_flags:
  assumes "sh_place padding maxWidth st it = Some st'"
  shows "newImages st' = newImages st \<and> placedThisRound st'"
proof (cases "findBestShelf padding maxWidth (shelves st) it")
  case (Some b)
  then show ?thesis using assms
    by (auto simp: sh_place_def placeOnShelf_flags split: if_splits prod.splits)
next
  case None
  then obtain placed st'' where o: "openShelf padding maxWidth st it = Some (placed, st'')"
    and st': "st' = (if \<not> placed then st''\<lparr>newImages := newImages st'' @ [it]\<rparr> else st'')"
    using assms by (auto simp: sh_place_def split: if_splits option.splits)
  from openShelf_flags[OF o] st' show ?thesis by simp
qed

lemma sh_place_inv:
  assumes inv: "sh_inv padding fks st"
    and pos: "0 < width it" "0 < height it" and pad: "0 \<le> padding"
    and res: "sh_place padding maxWidth st it = Some st'"
  shows "\<exists>fks'. sh_inv padding fks' st' \<and>
           map frame_item (sframes st') = map frame_item (sframes st) @ [it]"
proof (cases "findBestShelf padding maxWidth (shelves st) it")
  case (Some b)
  obtain i rot score waste where b: "b = (i, rot, score, waste)" by (cases b) auto
  from findBestShelf_Some[OF Some[unfolded b]]
  have el: "cand_eligible padding maxWidth (shelves st) it i rot" by blast
  have st': "st' = placeOnShelf padding st it i rot"
    using res Some b by (simp add: sh_place_def split: if_splits)
  have "map frame_item (sframes st') = map frame_item (sframes st) @ [it]"
    unfolding st' by (simp add: placeOnShelf_def Let_def frame_item_def)
  with sh_inv_placeOnShelf[OF inv el pos pad] st' show ?thesis by blast
next
  case None
  let ?rot = "newShelfRotated padding maxWidth it"
  let ?pw = "cand_w it ?rot" and ?ph = "cand_h it ?rot"
  let ?opt = "optimalHeight (newImages st) it ?ph"
  let ?newY = "if shelves st \<noteq> []
                  then sy (last (shelves st)) + sheight (last (shelves st)) + padding
                  else padding"
  let ?merge = "shelves st \<noteq> [] \<and>
                \<bar>sheight (last (shelves st)) - ?opt\<bar> \<le> min (?opt * (1 / 4)) 48 \<and>
                currentX (last (shelves st)) + padding + ?pw \<le> maxWidth"
  have opt: "?ph \<le> ?opt" by (rule optimalHeight_ge)
  note open_eq = openShelf_eq[of padding maxWidth st it]
  show ?thesis
  proof (cases ?merge)
    case True
    then have ne: "shelves st \<noteq> []" by simp
    then have n: "length (shelves st) - 1 < length (shelves st)"
      and l: "last (shelves st) = shelves st ! (length (shelves st) - 1)"
      by (simp_all add: last_conv_nth)
    have "\<not> cand_eligible padding maxWidth (shelves st) it (length (shelves st) - 1) ?rot"
      using None by (simp add: findBestShelf_None)
    then have "\<not> eligible padding maxWidth (last (shelves st)) ?pw ?ph"
      using n l by (simp add: cand_eligible_def)
    moreover have "?pw \<le> remainingWidth padding maxWidth (last (shelves st))"
      using True by (simp add: remainingWidth_def)
    ultimately have taller: "sheight (last (shelves st)) < ?ph"
      by (simp add: eligible_def)
    have st': "st' = mergeIntoLast padding st it ?rot ?opt"
      using res None True by (simp add: sh_place_def open_eq split: if_splits)
    have "map frame_item (sframes st') = map frame_item (sframes st) @ [it]"
      unfolding st'
      by (simp add: mergeIntoLast_def Let_def frame_item_def cand_w_def cand_h_def)
    with sh_inv_mergeIntoLast[OF inv pos pad ne taller opt] st' show ?thesis by blast
  next
    case False
    have st': "st' = createShelf padding maxWidth st it ?rot ?newY ?opt"
      using res None False by (simp add: sh_place_def open_eq split: if_splits)
    have "map frame_item (sframes st') = map frame_item (sframes st) @ [it]"
      unfolding st'
      by (simp add: createShelf_def Let_def frame_item_def)
    with sh_inv_createShelf[OF inv pos pad opt refl] st' show ?thesis by blast
  qed
qed

lemma sweep_inv:
  assumes "sh_inv padding fks st" and "positive_items images" and "0 \<le> padding"
    and "sweep padding maxWidth images st = Some st'"
  shows "\<exists>fks'. sh_inv padding fks' st' \<and>
           map frame_item (sframes st') = map frame_item (sframes st) @ images"
  using assms
proof (induction images arbitrary: fks st)
  case Nil
  then show ?case by auto
next
  case (Cons it images)
  from Cons.prems(4) obtain st1 where p: "sh_place padding maxWidth st it = Some st1"
    and s: "sweep padding maxWidth images st1 = Some st'"
    by (auto split: option.splits)
  have pos: "0 < width it" "0 < height it" and rest: "positive_items images"
    using Cons.prems(2) by (simp_all add: positive_items_def)
  from sh_place_inv[OF Cons.prems(1) pos Cons.prems(3) p] obtain fks1 where
    i1: "sh_inv padding fks1 st1" and f1: "map frame_item (sframes st1) = map frame_item (sframes st) @ [it]"
    by blast
  from Cons.IH[OF i1 rest Cons.prems(3) s] f1 show ?case by auto
qed

lemma sweep_flags:
  assumes "sweep padding maxWidth images st = Some st'"
  shows "newImages st' = newImages st \<and> (images \<noteq> [] \<longrightarrow> placedThisRound st')"
  using assms
proof (induction images arbitrary: st)
  case Nil
  then show ?case by simp
next
  case (Cons it images)
  from Cons.prems obtain st1 where p: "sh_place padding maxWidth st it = Some st1"
    and s: "sweep padding maxWidth images st1 = Some st'"
    by (auto split: option.splits)
  from sh_place_flags[OF p] Cons.IH[OF s] show ?case
    by (cases images) (use s in auto)
qed


lemma sh_init_inv: "sh_inv padding [] sh_init"
  by (simp add: sh_inv_def sh_init_def shelves_ok_def)

lemma shelf_rounds_done:
  "images = [] \<or> \<not> attempt < maxAttempts \<Longrightarrow> shelf_rounds padding maxWidth attempt images st = Some st"
  by (subst shelf_rounds.simps) auto

lemma resort_Nil: "resort attempt [] = []"
  by (simp add: resort_def)

lemma shelf_rounds_one_sweep:
  assumes "images \<noteq> []" and "attempt < maxAttempts"
  shows "shelf_rounds padding maxWidth attempt images st =
           sweep padding maxWidth images (st\<lparr>newImages := [], placedThisRound := False\<rparr>)"
proof (cases "sweep padding maxWidth images (st\<lparr>newImages := [], placedThisRound := False\<rparr>)")
  case None
  then show ?thesis using assms by (subst shelf_rounds.simps) simp
next
  case (Some st')
  from sweep_flags[OF Some] assms(1) have f: "newImages st' = []" "placedThisRound st'"
    by simp_all
  have "shelf_rounds padding maxWidth attempt images st =
          shelf_rounds padding maxWidth (attempt + 1) (resort (attempt + 1) (newImages st')) st'"
    using assms Some f by (subst shelf_rounds.simps) simp
  also have "\<dots> = Some st'"
    by (simp add: f resort_Nil shelf_rounds_done)
  finally show ?thesis using Some by simp
qed

lemma packImagesInternal_sweep:
  "packImagesInternal images padding maxWidth =
     (case sweep padding maxWidth images sh_init of
        None \<Rightarrow> None
      | Some st \<Rightarrow> Some \<lparr>frames = sframes st, lwidth = maxRight padding (sframes st),
                         lheight = maxBottom padding (sframes st)\<rparr>)"
proof (cases "images = []")
  case True
  then show ?thesis by (simp add: packImagesInternal_def shelf_rounds_done)
next
  case False
  have "sh_init\<lparr>newImages := [], placedThisRound := False\<rparr> = sh_init"
    by (simp add: sh_init_def)
  with shelf_rounds_one_sweep[OF False, of 0 padding maxWidth sh_init]
  have "shelf_rounds padding maxWidth 0 images sh_init = sweep padding maxWidth images sh_init"
    by (simp add: maxAttempts_def)
  then show ?thesis by (simp add: packImagesInternal_def)
qed

lemma packImagesInternal_Some:
  assumes "positive_items images" and "0 \<le> padding"
    and "packImagesInternal images padding maxWidth = Some L"
  shows "\<exists>fks st. sh_inv padding fks st \<and> frames L = sframes st \<and>
           map frame_item (frames L) = images \<and>
           lwidth L = maxRight padding (frames L) \<and> lheight L = maxBottom padding (frames L)"
proof -
  from assms(3) obtain st where s: "sweep padding maxWidth images sh_init = Some st"
    and L: "L = \<lparr>frames = sframes st, lwidth = maxRight padding (sframes st),
                 lheight = maxBottom padding (sframes st)\<rparr>"
    by (auto simp: packImagesInternal_sweep split: option.splits)
  from sweep_inv[OF sh_init_inv assms(1,2) s] obtain fks where
    "sh_inv padding fks st" "map frame_item (sframes st) = images"
    by (auto simp: sh_init_def)
  with L show ?thesis by auto
qed

lemma foldl_max_ge:
  fixes a :: rat
  shows "a \<le> foldl (\<lambda>m f. max m (g f)) a fs \<and> (\<forall>f \<in> set fs. g f \<le> foldl (\<lambda>m f. max m (g f)) a fs)"
proof (induction fs arbitrary: a)
  case Nil
  then show ?case by simp
next
  case (Cons f fs)
  from Cons[of "max a (g f)"] show ?case by auto
qed

lemma maxRight_ge:
  "padding \<le> maxRight padding fs \<and> (\<forall>f \<in> set fs. x f + fwidth f + padding \<le> maxRight padding fs)"
  unfolding maxRight_def by (rule foldl_max_ge)

lemma maxBottom_ge:
  "padding \<le> maxBottom padding fs \<and> (\<forall>f \<in> set fs. y f + fheight f + padding \<le> maxBottom padding fs)"
  unfolding maxBottom_def by (rule foldl_max_ge)

section \<open>MaxRectangles: the invariant of the placement loop\<close>

lemma splitFreeRectangle_None: "splitFreeRectangle f u = None \<Longrightarrow> rdisj f u"
  by (auto simp: splitFreeRectangle_def rdisj_def split: if_splits)

lemma splitFreeRectangle_Some:
  assumes "splitFreeRectangle f u = Some new" and "r \<in> set new"
  shows "isContainedIn r f \<and> rdisj r u"
proof -
  have ov: "\<not> rdisj f u" using assms(1) by (auto simp: splitFreeRectangle_def rdisj_def split: if_splits)
  have "r \<in> set (
      (if ry u > ry f \<and> ry u < ry f + rheight f
       then [\<lparr>rx = rx f, ry = ry f, rwidth = rwidth f, rheight = ry u - ry f\<rparr>] else []) @
      (if ry u + rheight u < ry f + rheight f
       then [\<lparr>rx = rx f, ry = ry u + rheight u, rwidth = rwidth f,
              rheight = ry f + rheight f - (ry u + rheight u)\<rparr>] else []) @
      (if rx u > rx f \<and> rx u < rx f + rwidth f
       then [\<lparr>rx = rx f, ry = ry f, rwidth = rx u - rx f, rheight = rheight f\<rparr>] else []) @
      (if rx u + rwidth u < rx f + rwidth f
       then [\<lparr>rx = rx u + rwidth u, ry = ry f,
              rwidth = rx f + rwidth f - (rx u + rwidth u), rheight = rheight f\<rparr>] else []))"
    using assms ov by (auto simp: splitFreeRectangle_def rdisj_def split: if_splits)
  then consider
      "r = \<lparr>rx = rx f, ry = ry f, rwidth = rwidth f, rheight = ry u - ry f\<rparr>"
        "ry u > ry f" "ry u < ry f + rheight f"
    | "r = \<lparr>rx = rx f, ry = ry u + rheight u, rwidth = rwidth f,
              rheight = ry f + rheight f - (ry u + rheight u)\<rparr>"
        "ry u + rheight u < ry f + rheight f"
    | "r = \<lparr>rx = rx f, ry = ry f, rwidth = rx u - rx f, rheight = rheight f\<rparr>"
        "rx u > rx f" "rx u < rx f + rwidth f"
    | "r = \<lparr>rx = rx u + rwidth u, ry = ry f,
              rwidth = rx f + rwidth f - (rx u + rwidth u), rheight = rheight f\<rparr>"
        "rx u + rwidth u < rx f + rwidth f"
    by (auto split: if_splits)
  then show ?thesis
  proof cases
    case 1 then show ?thesis using ov by (simp add: isContainedIn_def rdisj_def)
  next
    case 2 then show ?thesis using ov by (simp add: isContainedIn_def rdisj_def)
  next
    case 3 then show ?thesis using ov by (simp add: isContainedIn_def rdisj_def)
  next
    case 4 then show ?thesis using ov by (simp add: isContainedIn_def rdisj_def)
  qed
qed


lemma split_result_append: "split_result (xs @ ys) u = split_result xs u \<union> split_result ys u"
  by (auto simp: split_result_def)

lemma set_splice1: "i < length xs \<Longrightarrow> set (splice1 i xs) = set (take i xs) \<union> set (drop (Suc i) xs)"
  by (simp add: splice1_def)

lemma split_loop_subset:
  "n \<le> length fr \<Longrightarrow> set (split_loop n fr u) \<subseteq> set (drop n fr) \<union> split_result (take n fr) u"
proof (induction n arbitrary: fr)
  case 0
  then show ?case by simp
next
  case (Suc i)
  then have i: "i < length fr" by simp
  have tk: "take (Suc i) fr = take i fr @ [fr ! i]" using i by (simp add: take_Suc_conv_app_nth)
  have dr: "drop i fr = fr ! i # drop (Suc i) fr" using i by (simp add: Cons_nth_drop_Suc)
  show ?case
  proof (cases "splitFreeRectangle (fr ! i) u")
    case None
    have "set (split_loop i fr u) \<subseteq> set (drop i fr) \<union> split_result (take i fr) u"
      using Suc.IH[of fr] i by simp
    moreover have "fr ! i \<in> split_result [fr ! i] u"
      using None by (simp add: split_result_def)
    ultimately show ?thesis
      using None by (auto simp: tk dr split_result_append)
  next
    case (Some new)
    let ?fr' = "splice1 i (fr @ new)"
    have fr': "?fr' = take i fr @ drop (Suc i) fr @ new"
      using i by (simp add: splice1_def)
    have len: "i \<le> length ?fr'" using i by (simp add: fr')
    have tk': "take i ?fr' = take i fr" using i by (simp add: fr')
    have dr': "drop i ?fr' = drop (Suc i) fr @ new" using i by (simp add: fr')
    have "set (split_loop i ?fr' u) \<subseteq> set (drop i ?fr') \<union> split_result (take i ?fr') u"
      using Suc.IH[OF len] .
    moreover have "set new \<subseteq> split_result [fr ! i] u"
      using Some by (auto simp: split_result_def)
    ultimately show ?thesis
      using Some unfolding tk' dr' by (auto simp: tk split_result_append)
  qed
qed

lemma set_splice1_subset: "set (splice1 i xs) \<subseteq> set xs"
  unfolding splice1_def by (auto dest: in_set_takeD in_set_dropD)

lemma prune_loop_subset: "set (prune_loop i j fr) \<subseteq> set fr"
proof (induction i j fr rule: prune_loop.induct)
  case (1 i j fr)
  show ?case
  proof (cases "i \<ge> length fr")
    case True
    then show ?thesis by (subst prune_loop.simps) simp
  next
    case ni: False
    show ?thesis
    proof (cases "j \<ge> length fr")
      case True
      then show ?thesis using ni "1.IH"(1) by (subst prune_loop.simps) simp
    next
      case nj: False
      show ?thesis
      proof (cases "isContainedIn (fr ! i) (fr ! j)")
        case True
        with "1.IH"(2)[OF ni nj] set_splice1_subset[of i fr] show ?thesis
          using ni nj by (subst prune_loop.simps) auto
      next
        case c1: False
        show ?thesis
        proof (cases "isContainedIn (fr ! j) (fr ! i)")
          case True
          with "1.IH"(3)[OF ni nj c1] set_splice1_subset[of j fr] show ?thesis
            using ni nj c1 by (subst prune_loop.simps) auto
        next
          case False
          with "1.IH"(4)[OF ni nj c1] show ?thesis
            using ni nj c1 by (subst prune_loop.simps) auto
        qed
      qed
    qed
  qed
qed

lemma splitFreeRectangles_mem:
  assumes "r \<in> set (splitFreeRectangles fr u)"
  shows "rdisj r u \<and> (\<exists>f \<in> set fr. isContainedIn r f)"
proof -
  have "r \<in> set (split_loop (length fr) fr u)"
    using assms prune_loop_subset[of 0 1 "split_loop (length fr) fr u"]
    by (auto simp: splitFreeRectangles_def pruneFreeRectangles_def)
  with split_loop_subset[of "length fr" fr u] have "r \<in> split_result fr u" by auto
  then consider "r \<in> set fr" "splitFreeRectangle r u = None"
    | f new where "f \<in> set fr" "splitFreeRectangle f u = Some new" "r \<in> set new"
    by (auto simp: split_result_def)
  then show ?thesis
  proof cases
    case 1
    then show ?thesis using splitFreeRectangle_None by (auto simp: isContainedIn_def)
  next
    case 2
    then show ?thesis using splitFreeRectangle_Some by blast
  qed
qed

lemma contained_rdisj:
  "isContainedIn r f \<Longrightarrow> rdisj f u \<Longrightarrow> rdisj r u"
  by (auto simp: isContainedIn_def rdisj_def)

lemma contained_rdisj2:
  "isContainedIn u f \<Longrightarrow> rdisj f v \<Longrightarrow> rdisj v u"
  by (auto simp: isContainedIn_def rdisj_def)

lemma find_found:
  assumes "rheight (findPositionForNewNodeBestShortSideFit fr w h) \<noteq> 0"
  shows "\<exists>r \<in> set fr. fits r w h \<and>
           findPositionForNewNodeBestShortSideFit fr w h = \<lparr>rx = rx r, ry = ry r, rwidth = w, rheight = h\<rparr>"
proof (cases "\<exists>r \<in> set fr. fits r w h")
  case True
  from find_some[OF True] show ?thesis by (auto simp: bssf_best_def)
next
  case False
  then have "findPositionForNewNodeBestShortSideFit fr w h = zero_node"
    by (simp add: find_none)
  with assms show ?thesis by (simp add: zero_node_def)
qed

text \<open>A step that places a frame at the origin of a free rectangle the padded frame fits in.\<close>

lemma mr_inv_place:
  assumes inv: "mr_inv padding st" and r: "r \<in> set (freeRectangles st)"
    and fit: "fits r (fwidth fr + padding) (fheight fr + padding)"
    and at: "x fr = rx r" "y fr = ry r" and rot: "rot_ok fr"
  shows "mr_inv padding
           \<lparr>freeRectangles = splitFreeRectangles (freeRectangles st) (used_of padding fr),
            usedRectangles = usedRectangles st @ [used_of padding fr],
            mframes = mframes st @ [fr]\<rparr>"
proof -
  let ?u = "used_of padding fr"
  have cont: "isContainedIn ?u r"
    using fit at by (simp add: isContainedIn_def used_of_def fits_def)
  have r0: "0 \<le> rx r \<and> 0 \<le> ry r" and rd: "\<forall>v \<in> set (usedRectangles st). rdisj r v"
    using inv r by (auto simp: mr_inv_def)
  have new_free: "\<forall>q \<in> set (splitFreeRectangles (freeRectangles st) ?u).
      0 \<le> rx q \<and> 0 \<le> ry q \<and> rdisj q ?u \<and> (\<forall>v \<in> set (usedRectangles st). rdisj q v)"
  proof
    fix q assume "q \<in> set (splitFreeRectangles (freeRectangles st) ?u)"
    from splitFreeRectangles_mem[OF this] obtain f where
      qu: "rdisj q ?u" and f: "f \<in> set (freeRectangles st)" and qf: "isContainedIn q f" by blast
    have "0 \<le> rx f \<and> 0 \<le> ry f" "\<forall>v \<in> set (usedRectangles st). rdisj f v"
      using inv f by (auto simp: mr_inv_def)
    with qf qu show "0 \<le> rx q \<and> 0 \<le> ry q \<and> rdisj q ?u \<and> (\<forall>v \<in> set (usedRectangles st). rdisj q v)"
      by (auto simp: isContainedIn_def intro: contained_rdisj[OF qf])
  qed
  have old_used: "\<forall>v \<in> set (usedRectangles st). rdisj v ?u"
    using rd cont by (auto intro: contained_rdisj2)
  show ?thesis
    unfolding mr_inv_def
    using inv new_free old_used r0 at rot
    by (auto simp: mr_inv_def sorted_wrt_append)
qed


lemma mr_place_inv:
  assumes inv: "mr_inv padding st" and res: "mr_place padding st it = Some st'"
  shows "mr_inv padding st' \<and> map frame_item (mframes st') = map frame_item (mframes st) @ [it]"
proof (cases "rheight (findPositionForNewNodeBestShortSideFit (freeRectangles st)
                 (width it + padding) (height it + padding)) = 0")
  case False
  from find_found[OF False] obtain r where r: "r \<in> set (freeRectangles st)"
    and fit: "fits r (width it + padding) (height it + padding)"
    and node: "findPositionForNewNodeBestShortSideFit (freeRectangles st)
                 (width it + padding) (height it + padding)
               = \<lparr>rx = rx r, ry = ry r, rwidth = width it + padding, rheight = height it + padding\<rparr>"
    by blast
  let ?fr = "placed_frame it r False"
  have st': "st' = \<lparr>freeRectangles = splitFreeRectangles (freeRectangles st) (used_of padding ?fr),
                    usedRectangles = usedRectangles st @ [used_of padding ?fr],
                    mframes = mframes st @ [?fr]\<rparr>"
    using res False unfolding mr_place_def Let_def node
    by (simp add: placed_frame_def used_of_def)
  have "mr_inv padding st'"
    unfolding st' by (rule mr_inv_place[OF inv r]) (use fit in \<open>simp_all add: placed_frame_def rot_ok_def\<close>)
  moreover have "map frame_item (mframes st') = map frame_item (mframes st) @ [it]"
    unfolding st' by (simp add: placed_frame_def frame_item_def)
  ultimately show ?thesis by blast
next
  case True
  then have nz: "rheight (findPositionForNewNodeBestShortSideFit (freeRectangles st)
                 (height it + padding) (width it + padding)) \<noteq> 0"
    using res by (auto simp: mr_place_def Let_def split: if_splits)
  from find_found[OF nz] obtain r where r: "r \<in> set (freeRectangles st)"
    and fit: "fits r (height it + padding) (width it + padding)"
    and node: "findPositionForNewNodeBestShortSideFit (freeRectangles st)
                 (height it + padding) (width it + padding)
               = \<lparr>rx = rx r, ry = ry r, rwidth = height it + padding, rheight = width it + padding\<rparr>"
    by blast
  let ?fr = "placed_frame it r True"
  have st': "st' = \<lparr>freeRectangles = splitFreeRectangles (freeRectangles st) (used_of padding ?fr),
                    usedRectangles = usedRectangles st @ [used_of padding ?fr],
                    mframes = mframes st @ [?fr]\<rparr>"
    using res True nz unfolding mr_place_def Let_def node
    by (simp add: placed_frame_def used_of_def)
  have "mr_inv padding st'"
    unfolding st' by (rule mr_inv_place[OF inv r]) (use fit in \<open>simp_all add: placed_frame_def rot_ok_def\<close>)
  moreover have "map frame_item (mframes st') = map frame_item (mframes st) @ [it]"
    unfolding st' by (simp add: placed_frame_def frame_item_def)
  ultimately show ?thesis by blast
qed

lemma mr_loop_inv:
  assumes "mr_inv padding st" and "mr_loop padding images st = Some st'"
  shows "mr_inv padding st' \<and> map frame_item (mframes st') = map frame_item (mframes st) @ images"
  using assms
proof (induction images arbitrary: st)
  case Nil
  then show ?case by simp
next
  case (Cons it images)
  from Cons.prems(2) obtain st1 where p: "mr_place padding st it = Some st1"
    and l: "mr_loop padding images st1 = Some st'"
    by (auto split: option.splits)
  from mr_place_inv[OF Cons.prems(1) p] Cons.IH[OF _ l] show ?case by auto
qed

lemma mr_init_inv: "mr_inv padding (mr_init maxWidth)"
  by (simp add: mr_inv_def mr_init_def)

lemma maxRectanglesPack_Some:
  assumes "maxRectanglesPack images padding maxWidth = Some L"
  shows "\<exists>st. mr_inv padding st \<and> frames L = mframes st \<and>
           map frame_item (frames L) = images \<and>
           lwidth L = maxRight padding (frames L) \<and> lheight L = maxBottom padding (frames L)"
proof -
  from assms obtain st where l: "mr_loop padding images (mr_init maxWidth) = Some st"
    and L: "L = \<lparr>frames = mframes st, lwidth = maxRight padding (mframes st),
                 lheight = maxBottom padding (mframes st)\<rparr>"
    by (auto simp: maxRectanglesPack_def split: option.splits)
  from mr_loop_inv[OF mr_init_inv l] L show ?thesis
    by (auto simp: mr_init_def)
qed

lemma rdisj_used_of: "rdisj (used_of padding f) (used_of padding g) = apart padding f g"
  by (auto simp: rdisj_def used_of_def apart_def)

lemma mr_inv_no_overlap:
  assumes "mr_inv padding st"
  shows "no_overlap padding (mframes st)"
proof -
  have "sorted_wrt rdisj (map (used_of padding) (mframes st))"
    using assms unfolding mr_inv_def by metis
  then have "sorted_wrt (apart padding) (mframes st)"
    by (simp add: sorted_wrt_map rdisj_used_of)
  then show ?thesis by (rule no_overlap_sorted_wrt)
qed

section \<open>Layouts of both packers and the grid loop\<close>

lemma frame_item_positive:
  assumes "positive_items images" and "map frame_item fs = images" and "f \<in> set fs"
  shows "0 < originalWidth f \<and> 0 < originalHeight f"
proof -
  have "frame_item f \<in> set images" using assms(2,3) by auto
  with assms(1) show ?thesis by (auto simp: positive_items_def frame_item_def)
qed

lemma maxRectanglesPack_good:
  assumes "positive_items images"
    and "maxRectanglesPack images padding maxWidth = Some L"
  shows "good_layout padding images L"
proof -
  from maxRectanglesPack_Some[OF assms(2)] obtain st where
    inv: "mr_inv padding st" and fr: "frames L = mframes st"
    and items: "map frame_item (frames L) = images"
    and dims: "lwidth L = maxRight padding (frames L)" "lheight L = maxBottom padding (frames L)"
    by blast
  have "0 \<le> x f \<and> 0 \<le> y f \<and> 0 < fwidth f \<and> 0 < fheight f" if f: "f \<in> set (frames L)" for f
  proof -
    have "0 \<le> x f \<and> 0 \<le> y f \<and> rot_ok f"
      using inv f fr by (simp add: mr_inv_def)
    moreover have "0 < originalWidth f \<and> 0 < originalHeight f"
      using frame_item_positive[OF assms(1) items f] .
    ultimately show ?thesis by (auto simp: rot_ok_def split: if_splits)
  qed
  with mr_inv_no_overlap[OF inv] fr items dims show ?thesis
    by (simp add: good_layout_def)
qed

lemma packImagesInternal_good:
  assumes "positive_items images" and "0 \<le> padding"
    and "packImagesInternal images padding maxWidth = Some L"
  shows "good_layout padding images L"
proof -
  from packImagesInternal_Some[OF assms] obtain fks st where
    inv: "sh_inv padding fks st" and fr: "frames L = sframes st"
    and items: "map frame_item (frames L) = images"
    and dims: "lwidth L = maxRight padding (frames L)" "lheight L = maxBottom padding (frames L)"
    by blast
  from sh_inv_no_overlap[OF inv] sh_inv_nonneg[OF inv assms(2)] fr items dims show ?thesis
    by (simp add: good_layout_def)
qed

lemma good_layout_contained:
  assumes "good_layout padding images L" and "0 \<le> padding"
  shows "contained L"
  unfolding contained_def
proof
  fix f assume f: "f \<in> set (frames L)"
  have "x f + fwidth f + padding \<le> lwidth L" "y f + fheight f + padding \<le> lheight L"
    using assms(1) f maxRight_ge[of padding "frames L"] maxBottom_ge[of padding "frames L"]
    by (simp_all add: good_layout_def)
  with assms f show "0 \<le> x f \<and> 0 \<le> y f \<and> x f + fwidth f \<le> lwidth L \<and> y f + fheight f \<le> lheight L"
    by (auto simp: good_layout_def)
qed

lemma good_layout_positive_area:
  assumes "good_layout padding images L" and "0 \<le> padding" and "images \<noteq> []"
  shows "0 < lwidth L \<and> 0 < lheight L"
proof -
  from assms(1,3) have "frames L \<noteq> []" by (auto simp: good_layout_def)
  then obtain f where f: "f \<in> set (frames L)" by (cases "frames L") auto
  have "x f + fwidth f + padding \<le> lwidth L" "y f + fheight f + padding \<le> lheight L"
    using assms(1) f maxRight_ge[of padding "frames L"] maxBottom_ge[of padding "frames L"]
    by (simp_all add: good_layout_def)
  moreover have "0 \<le> x f \<and> 0 \<le> y f \<and> 0 < fwidth f \<and> 0 < fheight f"
    using assms(1) f by (simp add: good_layout_def)
  ultimately show ?thesis using assms(2) by auto
qed

lemma ceil_log2_from_ge: "v \<le> 2 ^ ceil_log2_from k v"
proof (induction k v rule: ceil_log2_from.induct)
  case (1 k v)
  show ?case
  proof (cases "v \<le> 2 ^ k")
    case True
    then show ?thesis by (subst ceil_log2_from.simps) simp
  next
    case False
    with "1.IH" show ?thesis by (subst ceil_log2_from.simps) simp
  qed
qed

lemma nextPowerOf2_ge: "n \<le> nextPowerOf2 n"
proof -
  have "max 1 n \<le> nextPowerOf2 n"
    unfolding nextPowerOf2_def by (rule ceil_log2_from_ge)
  then show ?thesis by simp
qed

lemma finalize_Some:
  assumes "finalize usePowerOfTwo result = Some L"
  shows "\<exists>L0. result = Some L0 \<and> frames L = frames L0 \<and>
           lwidth L0 \<le> lwidth L \<and> lheight L0 \<le> lheight L"
proof (cases result)
  case None
  with assms show ?thesis by (simp add: finalize_def)
next
  case (Some L0)
  show ?thesis
  proof (cases usePowerOfTwo)
    case True
    with assms Some have "L = \<lparr>frames = frames L0, lwidth = nextPowerOf2 (lwidth L0),
                               lheight = nextPowerOf2 (lheight L0)\<rparr>"
      by (auto simp: finalize_def Let_def split: if_splits)
    then show ?thesis using Some nextPowerOf2_ge by simp
  next
    case False
    with assms Some show ?thesis by (auto simp: finalize_def)
  qed
qed

lemma set_insort_cmp: "set (insort_cmp c a bs) = insert a (set bs)"
  by (induction bs) auto

lemma set_js_sort: "set (js_sort c xs) = set xs"
  unfolding js_sort_def by (induction xs) (auto simp: set_insort_cmp)

lemma js_sort_Nil_iff: "js_sort c xs = [] \<longleftrightarrow> xs = []"
  using set_js_sort[of c xs] by (metis set_empty)

lemma positive_items_js_sort: "positive_items (js_sort c xs) = positive_items xs"
  by (simp add: positive_items_def set_js_sort)


lemma efficiency_order:
  assumes "0 < totalArea images" and "0 < layout_area A" and "0 < layout_area B"
  shows "(layout_efficiency images A > layout_efficiency images B \<longleftrightarrow> layout_area A < layout_area B) \<and>
         (layout_efficiency images A = layout_efficiency images B \<longleftrightarrow> layout_area A = layout_area B) \<and>
         0 < layout_efficiency images A"
  using assms unfolding layout_efficiency_def by (auto simp: field_simps)

lemma keep_best_None: "keep_best images st None = st"
  by (simp add: keep_best_def)

lemma keep_best_Some:
  assumes "0 < layout_area L"
  shows "keep_best images st (Some L) =
     (if js_gt (Num (layout_efficiency images L)) (bestEfficiency st) \<or>
         (js_eq (Num (layout_efficiency images L)) (bestEfficiency st) \<and>
          js_gt (bestArea st) (Num (layout_area L)))
      then \<lparr>bestResult = Some L, bestArea = Num (layout_area L),
            bestEfficiency = Num (layout_efficiency images L)\<rparr>
      else st)"
proof -
  have ne: "(lwidth L * lheight L \<noteq> 0) = True"
    using assms by (auto simp: layout_area_def)
  have "js_times (js_div (totalArea images) (lwidth L * lheight L)) 100 = Num (layout_efficiency images L)"
    unfolding js_div_def ne layout_efficiency_def layout_area_def by simp
  then show ?thesis
    unfolding keep_best_def Let_def layout_area_def by simp
qed

lemma best_ok_step:
  assumes U: "0 < totalArea images"
    and pos: "\<forall>L. run g = Some L \<longrightarrow> 0 < layout_area L"
    and oldpos: "\<forall>g' \<in> set gs. \<forall>L. run g' = Some L \<longrightarrow> 0 < layout_area L"
    and ok: "best_ok images run gs st"
  shows "best_ok images run (gs @ [g]) (keep_best images st (run g))"
proof (cases "run g")
  case None
  then show ?thesis using ok by (auto simp: best_ok_def keep_best_None)
next
  case (Some L)
  with pos have a: "0 < layout_area L" by simp
  note kb = keep_best_Some[OF a, of images st]
  show ?thesis
  proof (cases "\<forall>g' \<in> set gs. run g' = None")
    case True
    with ok have st: "st = best_init" by (simp add: best_ok_def)
    have "0 < layout_efficiency images L" using efficiency_order[OF U a a] by simp
    then have "keep_best images st (Some L) =
            \<lparr>bestResult = Some L, bestArea = Num (layout_area L), bestEfficiency = Num (layout_efficiency images L)\<rparr>"
      unfolding kb by (simp add: st best_init_def)
    then show ?thesis using Some True by (auto simp: best_ok_def)
  next
    case False
    with ok obtain B where B: "bestResult st = Some B" "\<exists>g' \<in> set gs. run g' = Some B"
      "bestArea st = Num (layout_area B)" "bestEfficiency st = Num (layout_efficiency images B)"
      "\<forall>g' \<in> set gs. \<forall>L'. run g' = Some L' \<longrightarrow> layout_area B \<le> layout_area L'"
      by (auto simp: best_ok_def)
    from B(2) oldpos have b: "0 < layout_area B" by blast
    note ord = efficiency_order[OF U a b]
    show ?thesis
    proof (cases "layout_area L < layout_area B")
      case True
      then have "keep_best images st (Some L) =
            \<lparr>bestResult = Some L, bestArea = Num (layout_area L), bestEfficiency = Num (layout_efficiency images L)\<rparr>"
        unfolding kb using ord by (simp add: B)
      moreover have "\<forall>g' \<in> set (gs @ [g]). \<forall>L'. run g' = Some L' \<longrightarrow> layout_area L \<le> layout_area L'"
        using B(5) True Some by auto
      ultimately show ?thesis using Some by (auto simp: best_ok_def)
    next
      case nl: False
      then have "keep_best images st (Some L) = st"
        unfolding kb using ord by (auto simp: B)
      moreover have "\<forall>g' \<in> set (gs @ [g]). \<forall>L'. run g' = Some L' \<longrightarrow> layout_area B \<le> layout_area L'"
        using B(5) nl Some by auto
      ultimately show ?thesis using Some B False by (auto simp: best_ok_def)
    qed
  qed
qed

lemma best_ok_fold:
  assumes U: "0 < totalArea images"
    and pos: "\<forall>g \<in> set grid. \<forall>L. run g = Some L \<longrightarrow> 0 < layout_area L"
  shows "best_ok images run grid (foldl (\<lambda>st g. keep_best images st (run g)) best_init grid)"
  using pos
proof (induction grid rule: rev_induct)
  case Nil
  then show ?case by (simp add: best_ok_def)
next
  case (snoc g gs)
  have "best_ok images run gs (foldl (\<lambda>st g. keep_best images st (run g)) best_init gs)"
    using snoc by simp
  from best_ok_step[OF U _ _ this, of g] snoc.prems show ?case by simp
qed

lemma foldl_add_ge:
  fixes a :: rat
  assumes "\<forall>i \<in> set xs. 0 < f i"
  shows "a \<le> foldl (\<lambda>sum i. sum + f i) a xs \<and> (xs \<noteq> [] \<longrightarrow> a < foldl (\<lambda>sum i. sum + f i) a xs)"
  using assms
proof (induction xs arbitrary: a)
  case Nil
  then show ?case by simp
next
  case (Cons i xs)
  from Cons.IH[of "a + f i"] Cons.prems show ?case by force
qed

lemma totalArea_pos:
  assumes "positive_items images" and "images \<noteq> []"
  shows "0 < totalArea images"
proof -
  have "\<forall>i \<in> set images. 0 < width i * height i"
    using assms(1) by (simp add: positive_items_def)
  from foldl_add_ge[OF this, of 0] assms(2) show ?thesis by (simp add: totalArea_def)
qed

text \<open>Every run of either grid that succeeds gives a good layout of the sorted images,
  possibly enlarged to powers of two.\<close>

lemma run_good:
  assumes pos: "positive_items images" and pad: "0 \<le> padding"
    and run: "finalize usePowerOfTwo result = Some L"
    and good: "\<And>L0. result = Some L0 \<Longrightarrow> good_layout padding imgs L0"
    and nonempty: "imgs \<noteq> []"
  shows "contained L \<and> no_overlap padding (frames L) \<and> map frame_item (frames L) = imgs \<and> 0 < layout_area L"
proof -
  from finalize_Some[OF run] obtain L0 where r: "result = Some L0" and fr: "frames L = frames L0"
    and w: "lwidth L0 \<le> lwidth L" and h: "lheight L0 \<le> lheight L" by blast
  note g = good[OF r]
  from good_layout_contained[OF g pad] fr w h have "contained L"
    by (fastforce simp: contained_def)
  moreover from good_layout_positive_area[OF g pad nonempty] w h have "0 < layout_area L"
    by (simp add: layout_area_def)
  ultimately show ?thesis using g fr by (simp add: good_layout_def)
qed

lemma mr_run_good:
  assumes "positive_items images" and "0 \<le> padding" and "images \<noteq> []"
    and "mr_run images padding usePowerOfTwo g = Some L"
  shows "contained L \<and> no_overlap padding (frames L) \<and>
         map frame_item (frames L) = js_sort (strategy_fn (snd g)) images \<and> 0 < layout_area L"
proof (rule run_good[OF assms(1,2) assms(4)[unfolded mr_run_def]])
  show "js_sort (strategy_fn (snd g)) images \<noteq> []"
    using assms(3) by (simp add: js_sort_Nil_iff)
next
  fix L0
  assume "maxRectanglesPack (js_sort (strategy_fn (snd g)) images) padding (of_int (fst g)) = Some L0"
  then show "good_layout padding (js_sort (strategy_fn (snd g)) images) L0"
    using assms(1) by (intro maxRectanglesPack_good) (simp_all add: positive_items_js_sort)
qed

lemma shelf_run_good:
  assumes "positive_items images" and "0 \<le> padding" and "images \<noteq> []"
    and "shelf_run images padding usePowerOfTwo g = Some L"
  shows "contained L \<and> no_overlap padding (frames L) \<and>
         map frame_item (frames L) = js_sort (strategy_fn (snd g)) images \<and> 0 < layout_area L"
proof (rule run_good[OF assms(1,2) assms(4)[unfolded shelf_run_def]])
  show "js_sort (strategy_fn (snd g)) images \<noteq> []"
    using assms(3) by (simp add: js_sort_Nil_iff)
next
  fix L0
  assume "packImagesInternal (js_sort (strategy_fn (snd g)) images) padding (of_int (fst g)) = Some L0"
  then show "good_layout padding (js_sort (strategy_fn (snd g)) images) L0"
    using assms(1,2) by (intro packImagesInternal_good) (simp_all add: positive_items_js_sort)
qed

section \<open>No overlap and completeness\<close>

lemma mr_three_eval: "maxRectanglesPack three_items 2 256 = Some mr_three"
  by code_simp

lemma shelf_three_eval: "packImagesInternal three_items 2 512 = Some shelf_three"
  by code_simp

lemma three_items_positive: "positive_items three_items"
  by (simp add: positive_items_def three_items_def)

text \<open>
  Claim C1. For items of positive dimensions and padding \<open>\<ge> 0\<close>, in every layout that
  \<open>maxRectanglesPack\<close> or \<open>packImagesInternal\<close> (the Shelf packer) returns, the padded
  bounding boxes \<open>[x, x + width + padding) \<times> [y, y + height + padding)\<close> of two
  different placed items do not intersect.
\<close>

theorem packers_no_overlap:
  assumes "positive_items images" and "0 \<le> padding"
  shows "(\<forall>L. maxRectanglesPack images padding maxWidth = Some L \<longrightarrow> no_overlap padding (frames L)) \<and>
         (\<forall>L. packImagesInternal images padding maxWidth = Some L \<longrightarrow> no_overlap padding (frames L))"
  using maxRectanglesPack_good[OF assms(1)] packImagesInternal_good[OF assms]
  by (auto simp: good_layout_def)

theorem packers_no_overlap_witness:
  "positive_items three_items \<and>
   maxRectanglesPack three_items 2 256 = Some mr_three \<and> no_overlap 2 (frames mr_three) \<and>
   packImagesInternal three_items 2 512 = Some shelf_three \<and> no_overlap 2 (frames shelf_three)"
proof -
  have p: "(0::rat) \<le> 2" by simp
  from packers_no_overlap[OF three_items_positive p, of 256] mr_three_eval
  have a: "no_overlap 2 (frames mr_three)" by blast
  from packers_no_overlap[OF three_items_positive p, of 512] shelf_three_eval
  have b: "no_overlap 2 (frames shelf_three)" by blast
  from a b three_items_positive mr_three_eval shelf_three_eval show ?thesis by blast
qed


lemma placeOnShelf_items:
  "map frame_item (sframes (placeOnShelf padding st it i rot)) = map frame_item (sframes st) @ [it]"
  by (simp add: placeOnShelf_def Let_def frame_item_def)

lemma mergeIntoLast_items:
  "map frame_item (sframes (mergeIntoLast padding st it rot h)) = map frame_item (sframes st) @ [it]"
  by (simp add: mergeIntoLast_def Let_def frame_item_def comp_def)

lemma createShelf_items:
  "map frame_item (sframes (createShelf padding maxWidth st it rot newY h)) = map frame_item (sframes st) @ [it]"
  by (simp add: createShelf_def Let_def frame_item_def)

lemma openShelf_items:
  assumes "openShelf padding maxWidth st it = Some (placed, st')"
  shows "map frame_item (sframes st') = map frame_item (sframes st) @ [it]"
  using assms unfolding openShelf_eq
  by (auto simp: mergeIntoLast_items createShelf_items split: if_splits)

lemma sh_place_items:
  assumes "sh_place padding maxWidth st it = Some st'"
  shows "map frame_item (sframes st') = map frame_item (sframes st) @ [it]"
proof (cases "findBestShelf padding maxWidth (shelves st) it")
  case (Some b)
  obtain i rot score waste where b: "b = (i, rot, score, waste)" by (cases b) auto
  have "st' = placeOnShelf padding st it i rot"
    using assms Some b by (simp add: sh_place_def split: if_splits)
  then show ?thesis by (simp add: placeOnShelf_items)
next
  case None
  then obtain placed st'' where o: "openShelf padding maxWidth st it = Some (placed, st'')"
    and st': "st' = (if \<not> placed then st''\<lparr>newImages := newImages st'' @ [it]\<rparr> else st'')"
    using assms by (auto simp: sh_place_def split: if_splits option.splits)
  from openShelf_items[OF o] openShelf_flags[OF o] st' show ?thesis by simp
qed

lemma sweep_items:
  assumes "sweep padding maxWidth images st = Some st'"
  shows "map frame_item (sframes st') = map frame_item (sframes st) @ images"
  using assms
proof (induction images arbitrary: st)
  case Nil
  then show ?case by simp
next
  case (Cons it images)
  from Cons.prems obtain st1 where p: "sh_place padding maxWidth st it = Some st1"
    and s: "sweep padding maxWidth images st1 = Some st'"
    by (auto split: option.splits)
  from sh_place_items[OF p] Cons.IH[OF s] show ?case by simp
qed

lemma packImagesInternal_items:
  assumes "packImagesInternal images padding maxWidth = Some L"
  shows "map frame_item (frames L) = images"
proof -
  from assms obtain st where s: "sweep padding maxWidth images sh_init = Some st"
    and L: "frames L = sframes st"
    by (auto simp: packImagesInternal_sweep split: option.splits)
  from sweep_items[OF s] L show ?thesis by (simp add: sh_init_def)
qed

lemma maxRectanglesPack_items:
  assumes "maxRectanglesPack images padding maxWidth = Some L"
  shows "map frame_item (frames L) = images"
  using maxRectanglesPack_Some[OF assms] by blast

lemma frame_item_names: "map frame_item fs = images \<Longrightarrow> map fname fs = map name images"
  by (induction fs arbitrary: images) (auto simp: frame_item_def)

lemma big_item_mr: "maxRectanglesPack big_item 2 2048 = None"
  by code_simp

lemma big_item_shelf: "packImagesInternal big_item 2 2048 = None"
  by code_simp

lemma items_names_length:
  assumes "map frame_item (frames L) = images"
  shows "map frame_item (frames L) = images \<and> map fname (frames L) = map name images \<and>
         length (frames L) = length images"
proof -
  have "length (map frame_item (frames L)) = length images" by (simp only: assms)
  then have "length (frames L) = length images" by simp
  then show ?thesis using assms frame_item_names[OF assms] by simp
qed

text \<open>
  Claim C2. For every item list, one packing attempt of either packer at a fixed width
  either returns \<open>null\<close> or returns a layout whose frames are the input items, one
  frame per item in the order given (same names and original sizes, none dropped, none
  twice): there is no partial layout.
\<close>

theorem packers_all_or_nothing:
  "(maxRectanglesPack images padding maxWidth = None \<or>
      (\<exists>L. maxRectanglesPack images padding maxWidth = Some L \<and>
           map frame_item (frames L) = images \<and> map fname (frames L) = map name images \<and>
           length (frames L) = length images)) \<and>
   (packImagesInternal images padding maxWidth = None \<or>
      (\<exists>L. packImagesInternal images padding maxWidth = Some L \<and>
           map frame_item (frames L) = images \<and> map fname (frames L) = map name images \<and>
           length (frames L) = length images))"
proof
  show "maxRectanglesPack images padding maxWidth = None \<or>
      (\<exists>L. maxRectanglesPack images padding maxWidth = Some L \<and>
           map frame_item (frames L) = images \<and> map fname (frames L) = map name images \<and>
           length (frames L) = length images)"
  proof (cases "maxRectanglesPack images padding maxWidth")
    case None
    then show ?thesis by simp
  next
    case (Some L)
    from items_names_length[OF maxRectanglesPack_items[OF Some]] Some show ?thesis by blast
  qed
  show "packImagesInternal images padding maxWidth = None \<or>
      (\<exists>L. packImagesInternal images padding maxWidth = Some L \<and>
           map frame_item (frames L) = images \<and> map fname (frames L) = map name images \<and>
           length (frames L) = length images)"
  proof (cases "packImagesInternal images padding maxWidth")
    case None
    then show ?thesis by simp
  next
    case (Some L)
    from items_names_length[OF packImagesInternal_items[OF Some]] Some show ?thesis by blast
  qed
qed

theorem packers_all_or_nothing_witness:
  "maxRectanglesPack three_items 2 256 = Some mr_three \<and>
   map frame_item (frames mr_three) = three_items \<and>
   packImagesInternal three_items 2 512 = Some shelf_three \<and>
   map frame_item (frames shelf_three) = three_items \<and>
   maxRectanglesPack big_item 2 2048 = None \<and> packImagesInternal big_item 2 2048 = None"
proof -
  from packers_all_or_nothing[of three_items 2 256] mr_three_eval
  have a: "map frame_item (frames mr_three) = three_items" by simp
  from packers_all_or_nothing[of three_items 2 512] shelf_three_eval
  have b: "map frame_item (frames shelf_three) = three_items" by simp
  from a b mr_three_eval shelf_three_eval big_item_mr big_item_shelf show ?thesis by blast
qed

section \<open>Containment\<close>

lemma mr_one_eval: "packImagesWithMaxRectangles one_item 2 64 True = Some mr_one"
  by code_simp

lemma shelf_one_eval: "packImages one_item 2 64 True = Some shelf_one"
  by code_simp

lemma g1: "(64, PerimeterDesc) \<in> set (mrGrid one_item 64 True)"
  by code_simp

lemma r2: "mr_run one_item 2 True (64, PerimeterDesc) = Some mr_one"
  by code_simp

lemma g2: "(64, RatioAsc) \<in> set (shelfGrid one_item 64 True)"
  by code_simp

lemma r3: "shelf_run one_item 2 True (64, RatioAsc) = Some shelf_one"
  by code_simp

lemma empty_nan: "packImagesWithMaxRectangles [] 0 2048 False = None"
  by code_simp

lemma empty_runs: "list_all (\<lambda>g. mr_run [] 0 False g \<noteq> None) (mrGrid [] 2048 False)"
  by code_simp


lemma keep_best_result:
  "bestResult (keep_best images st final) = bestResult st \<or>
   (bestResult (keep_best images st final) = final \<and> final \<noteq> None)"
  by (cases final) (auto simp: keep_best_def Let_def)

lemma fold_member:
  assumes "bestResult (foldl (\<lambda>st g. keep_best images st (run g)) st0 grid) = Some L"
  shows "bestResult st0 = Some L \<or> (\<exists>g \<in> set grid. run g = Some L)"
  using assms
proof (induction grid arbitrary: st0)
  case Nil
  then show ?case by simp
next
  case (Cons g grid)
  from Cons.IH[of "keep_best images st0 (run g)"] Cons.prems
  have "bestResult (keep_best images st0 (run g)) = Some L \<or> (\<exists>g \<in> set grid. run g = Some L)"
    by simp
  with keep_best_result[of images st0 "run g"] show ?case by auto
qed

lemma finalize_contained:
  assumes "finalize usePowerOfTwo result = Some L" and "0 \<le> padding"
    and "\<And>L0. result = Some L0 \<Longrightarrow> good_layout padding imgs L0"
  shows "contained L"
proof -
  from finalize_Some[OF assms(1)] obtain L0 where r: "result = Some L0" and fr: "frames L = frames L0"
    and w: "lwidth L0 \<le> lwidth L" and h: "lheight L0 \<le> lheight L" by blast
  from good_layout_contained[OF assms(3)[OF r] assms(2)] fr w h show ?thesis
    by (fastforce simp: contained_def)
qed

text \<open>
  Claim C3. For items of positive dimensions and padding \<open>\<ge> 0\<close>, every placed item of
  every layout returned by either packer, and of every layout returned by either grid
  search (whose final dimensions may have been rounded up to powers of two), has
  \<open>0 \<le> x\<close>, \<open>0 \<le> y\<close>, \<open>x + width \<le> layout.width\<close> and \<open>y + height \<le> layout.height\<close>.
\<close>

theorem layouts_contained:
  assumes "positive_items images" and "0 \<le> padding"
  shows "(\<forall>L. maxRectanglesPack images padding packWidth = Some L \<longrightarrow> contained L) \<and>
         (\<forall>L. packImagesInternal images padding packWidth = Some L \<longrightarrow> contained L) \<and>
         (\<forall>L. packImagesWithMaxRectangles images padding maxWidth usePowerOfTwo = Some L \<longrightarrow> contained L) \<and>
         (\<forall>L. packImages images padding maxWidth usePowerOfTwo = Some L \<longrightarrow> contained L)"
proof (intro conjI allI impI)
  fix L assume "maxRectanglesPack images padding packWidth = Some L"
  from good_layout_contained[OF maxRectanglesPack_good[OF assms(1) this] assms(2)]
  show "contained L" .
next
  fix L assume "packImagesInternal images padding packWidth = Some L"
  from good_layout_contained[OF packImagesInternal_good[OF assms this] assms(2)]
  show "contained L" .
next
  fix L assume "packImagesWithMaxRectangles images padding maxWidth usePowerOfTwo = Some L"
  from fold_member[OF this[unfolded packImagesWithMaxRectangles_def]]
  obtain g where g: "mr_run images padding usePowerOfTwo g = Some L"
    by (auto simp: best_init_def)
  show "contained L"
  proof (rule finalize_contained[OF g[unfolded mr_run_def] assms(2)])
    fix L0
    assume "maxRectanglesPack (js_sort (strategy_fn (snd g)) images) padding (of_int (fst g)) = Some L0"
    then show "good_layout padding (js_sort (strategy_fn (snd g)) images) L0"
      using assms(1) by (intro maxRectanglesPack_good) (simp_all add: positive_items_js_sort)
  qed
next
  fix L assume "packImages images padding maxWidth usePowerOfTwo = Some L"
  from fold_member[OF this[unfolded packImages_def]]
  obtain g where g: "shelf_run images padding usePowerOfTwo g = Some L"
    by (auto simp: best_init_def)
  show "contained L"
  proof (rule finalize_contained[OF g[unfolded shelf_run_def] assms(2)])
    fix L0
    assume "packImagesInternal (js_sort (strategy_fn (snd g)) images) padding (of_int (fst g)) = Some L0"
    then show "good_layout padding (js_sort (strategy_fn (snd g)) images) L0"
      using assms by (intro packImagesInternal_good) (simp_all add: positive_items_js_sort)
  qed
qed

lemma one_item_positive: "positive_items one_item"
  by (simp add: positive_items_def one_item_def)

theorem layouts_contained_witness:
  "positive_items three_items \<and> positive_items one_item \<and>
   maxRectanglesPack three_items 2 256 = Some mr_three \<and> contained mr_three \<and>
   packImagesInternal three_items 2 512 = Some shelf_three \<and> contained shelf_three \<and>
   packImagesWithMaxRectangles one_item 2 64 True = Some mr_one \<and> contained mr_one \<and>
   packImages one_item 2 64 True = Some shelf_one \<and> contained shelf_one"
proof -
  have p: "(0::rat) \<le> 2" by simp
  from layouts_contained[OF three_items_positive p, of 256] mr_three_eval
  have a: "contained mr_three" by blast
  from layouts_contained[OF three_items_positive p, of 512] shelf_three_eval
  have b: "contained shelf_three" by blast
  from layouts_contained[OF one_item_positive p, of _ 64 True] mr_one_eval shelf_one_eval
  have c: "contained mr_one" "contained shelf_one" by blast+
  from a b c three_items_positive one_item_positive mr_three_eval shelf_three_eval
    mr_one_eval shelf_one_eval
  show ?thesis by blast
qed

section \<open>The grid search and the passes of the Shelf packer\<close>

lemma best_fold_spec:
  assumes U: "0 < totalArea images"
    and pos: "\<forall>g \<in> set grid. \<forall>L. run g = Some L \<longrightarrow> 0 < layout_area L"
  shows "(bestResult (foldl (\<lambda>st g. keep_best images st (run g)) best_init grid) = None \<longleftrightarrow>
            (\<forall>g \<in> set grid. run g = None)) \<and>
         (\<forall>L. bestResult (foldl (\<lambda>st g. keep_best images st (run g)) best_init grid) = Some L \<longrightarrow>
            (\<exists>g \<in> set grid. run g = Some L) \<and>
            (\<forall>g \<in> set grid. \<forall>L'. run g = Some L' \<longrightarrow>
               layout_efficiency images L' \<le> layout_efficiency images L \<and>
               (layout_efficiency images L' = layout_efficiency images L \<longrightarrow>
                  layout_area L \<le> layout_area L')))"
proof (cases "\<forall>g \<in> set grid. run g = None")
  case True
  with best_ok_fold[OF U pos] show ?thesis
    by (simp add: best_ok_def best_init_def)
next
  case False
  let ?st = "foldl (\<lambda>st g. keep_best images st (run g)) best_init grid"
  from best_ok_fold[OF U pos] False obtain B where
    B: "bestResult ?st = Some B" "\<exists>g \<in> set grid. run g = Some B"
       "\<forall>g \<in> set grid. \<forall>L'. run g = Some L' \<longrightarrow> layout_area B \<le> layout_area L'"
    by (auto simp: best_ok_def)
  from B(2) pos have b: "0 < layout_area B" by blast
  have "layout_efficiency images L' \<le> layout_efficiency images B \<and>
        (layout_efficiency images L' = layout_efficiency images B \<longrightarrow> layout_area B \<le> layout_area L')"
    if g: "g \<in> set grid" and r: "run g = Some L'" for g L'
  proof -
    from pos g r have l: "0 < layout_area L'" by blast
    from B(3) g r have le: "layout_area B \<le> layout_area L'" by blast
    from efficiency_order[OF U l b] le show ?thesis by (auto simp: not_less[symmetric])
  qed
  with B False show ?thesis by auto
qed

text \<open>
  Claim C5, amended to non-empty lists. A run of the grid is one pair of a width and a
  sort order: the packer's attempt on the sorted images with its final dimensions; it
  fails when the packer returns \<open>null\<close> or, with power-of-two output, when a rounded
  dimension exceeds 2048. For a non-empty list of items of positive dimensions and
  padding \<open>\<ge> 0\<close>, each grid search returns \<open>null\<close> exactly if every run fails, and
  otherwise returns the layout of a successful run whose efficiency (total item area
  over final bounding area) is the highest of all successful runs, a tie going to the
  smaller final area.
\<close>

theorem grid_search_best:
  assumes "images \<noteq> []" and "positive_items images" and "0 \<le> padding"
  shows
    "(packImagesWithMaxRectangles images padding maxWidth usePowerOfTwo = None \<longleftrightarrow>
        (\<forall>g \<in> set (mrGrid images maxWidth usePowerOfTwo).
           mr_run images padding usePowerOfTwo g = None)) \<and>
     (\<forall>L. packImagesWithMaxRectangles images padding maxWidth usePowerOfTwo = Some L \<longrightarrow>
        (\<exists>g \<in> set (mrGrid images maxWidth usePowerOfTwo).
           mr_run images padding usePowerOfTwo g = Some L) \<and>
        (\<forall>g \<in> set (mrGrid images maxWidth usePowerOfTwo). \<forall>L'.
           mr_run images padding usePowerOfTwo g = Some L' \<longrightarrow>
             layout_efficiency images L' \<le> layout_efficiency images L \<and>
             (layout_efficiency images L' = layout_efficiency images L \<longrightarrow>
                layout_area L \<le> layout_area L'))) \<and>
     (packImages images padding maxWidth usePowerOfTwo = None \<longleftrightarrow>
        (\<forall>g \<in> set (shelfGrid images maxWidth usePowerOfTwo).
           shelf_run images padding usePowerOfTwo g = None)) \<and>
     (\<forall>L. packImages images padding maxWidth usePowerOfTwo = Some L \<longrightarrow>
        (\<exists>g \<in> set (shelfGrid images maxWidth usePowerOfTwo).
           shelf_run images padding usePowerOfTwo g = Some L) \<and>
        (\<forall>g \<in> set (shelfGrid images maxWidth usePowerOfTwo). \<forall>L'.
           shelf_run images padding usePowerOfTwo g = Some L' \<longrightarrow>
             layout_efficiency images L' \<le> layout_efficiency images L \<and>
             (layout_efficiency images L' = layout_efficiency images L \<longrightarrow>
                layout_area L \<le> layout_area L')))"
proof -
  have U: "0 < totalArea images" using totalArea_pos[OF assms(2,1)] .
  have p1: "\<forall>g \<in> set (mrGrid images maxWidth usePowerOfTwo). \<forall>L.
              mr_run images padding usePowerOfTwo g = Some L \<longrightarrow> 0 < layout_area L"
    using mr_run_good[OF assms(2,3,1)] by blast
  have p2: "\<forall>g \<in> set (shelfGrid images maxWidth usePowerOfTwo). \<forall>L.
              shelf_run images padding usePowerOfTwo g = Some L \<longrightarrow> 0 < layout_area L"
    using shelf_run_good[OF assms(2,3,1)] by blast
  from best_fold_spec[OF U p1] best_fold_spec[OF U p2] show ?thesis
    unfolding packImagesWithMaxRectangles_def packImages_def by blast
qed

theorem grid_search_best_witness:
  "one_item \<noteq> [] \<and> positive_items one_item \<and>
   packImagesWithMaxRectangles one_item 2 64 True = Some mr_one \<and>
   mr_run one_item 2 True (64, PerimeterDesc) = Some mr_one \<and>
   layout_efficiency one_item mr_one \<le> layout_efficiency one_item mr_one \<and>
   packImages one_item 2 64 True = Some shelf_one \<and>
   shelf_run one_item 2 True (64, RatioAsc) = Some shelf_one \<and>
   packImagesWithMaxRectangles big_item 2 2048 True = None \<and>
   mr_run big_item 2 True (2048, AreaDesc) = None"
proof -
  have ne: "one_item \<noteq> []" by (simp add: one_item_def)
  have p: "(0::rat) \<le> 2" by simp
  note t = grid_search_best[OF ne one_item_positive p, of 64 True]
  from t mr_one_eval g1 r2
  have a: "layout_efficiency one_item mr_one \<le> layout_efficiency one_item mr_one" by blast
  have bne: "big_item \<noteq> []" and bp: "positive_items big_item"
    by (simp_all add: big_item_def positive_items_def)
  have bn: "packImagesWithMaxRectangles big_item 2 2048 True = None" by code_simp
  have bg: "(2048, AreaDesc) \<in> set (mrGrid big_item 2048 True)" by code_simp
  from grid_search_best[OF bne bp p, of 2048 True] bn bg
  have b: "mr_run big_item 2 True (2048, AreaDesc) = None" by blast
  from a b bn ne one_item_positive mr_one_eval r2 shelf_one_eval r3 show ?thesis by blast
qed

text \<open>
  Claim C5 as stated (every item list) fails at the empty list with padding 0 and
  without power-of-two output: every run succeeds with the empty \<open>0 \<times> 0\<close> layout, whose
  efficiency \<open>0 / 0 * 100\<close> is \<open>NaN\<close>, so no comparison accepts it and the search returns
  \<open>null\<close>.
\<close>

lemma empty_none: "packImagesWithMaxRectangles [] 0 2048 False = None"
  by code_simp

lemma empty_grid: "(2048, AreaDesc) \<in> set (mrGrid [] 2048 False)"
  by code_simp

lemma empty_run: "mr_run [] 0 False (2048, AreaDesc) = Some \<lparr>frames = [], lwidth = 0, lheight = 0\<rparr>"
  by code_simp

theorem grid_search_empty_counterexample:
  "packImagesWithMaxRectangles [] 0 2048 False = None \<and>
   mr_run [] 0 False (2048, AreaDesc) = Some \<lparr>frames = [], lwidth = 0, lheight = 0\<rparr> \<and>
   (2048, AreaDesc) \<in> set (mrGrid [] 2048 False) \<and>
   \<not> (packImagesWithMaxRectangles [] 0 2048 False = None \<longleftrightarrow>
        (\<forall>g \<in> set (mrGrid [] 2048 False). mr_run [] 0 False g = None))"
proof -
  from empty_grid empty_run
  have "\<not> (\<forall>g \<in> set (mrGrid [] 2048 False). mr_run [] 0 False g = None)"
    by force
  with empty_none empty_grid empty_run show ?thesis by blast
qed




section \<open>ImageGrouper: conservation and the merge step\<close>

lemma mset_push_to:
  "mset (concat (map snd (push_to k v es))) = add_mset v (mset (concat (map snd es)))"
  by (induction es) auto

lemma mset_foldl_push_to:
  "mset (concat (map snd (foldl (\<lambda>groups img. push_to (key img) img groups) es images)))
     = mset images + mset (concat (map snd es))"
  by (induction images arbitrary: es) (auto simp: mset_push_to)

lemma concat_map_entries:
  "concat (map gitems (map (\<lambda>e. \<lparr>gname = fst e, gitems = snd e, gstrategy = f e\<rparr>) es))
     = concat (map snd es)"
  by (induction es) auto

lemma mset_groupBySize: "mset (all_items (groupBySize cfg images)) = mset images"
  unfolding all_items_def groupBySize_def concat_map_entries
  using mset_foldl_push_to[of "\<lambda>img. getSizeCategory cfg (width img * height img)" "[]" images]
  by simp

lemma mset_refineGroup: "mset (all_items (refineGroup cfg g)) = mset (gitems g)"
  unfolding all_items_def refineGroup_def concat_map_entries
  using mset_foldl_push_to[of "\<lambda>img. gname g @ ''_'' @ getAspectRatioCategory cfg (width img) (height img)" "[]" "gitems g"]
  by simp

lemma all_items_append: "all_items (xs @ ys) = all_items xs @ all_items ys"
  by (simp add: all_items_def)

lemma all_items_Cons: "all_items (g # gs) = gitems g @ all_items gs"
  by (simp add: all_items_def)

lemma all_items_Nil: "all_items [] = []"
  by (simp add: all_items_def)

lemma mset_refineGroups:
  "mset (all_items (refineGroupsByAspectRatio cfg groups)) = mset (all_items groups)"
  unfolding refineGroupsByAspectRatio_def
  by (induction groups) (auto simp: all_items_append all_items_Cons all_items_Nil mset_refineGroup)

lemma mset_merge_pairs:
  "mset (all_items (fst (merge_pairs gs))) + mset (all_items (snd (merge_pairs gs)))
     = mset (all_items gs)"
  by (induction gs rule: merge_pairs.induct)
     (auto simp: Let_def all_items_Cons all_items_Nil)

lemma length_merge_pairs_rest: "length (snd (merge_pairs gs)) \<le> 1"
  by (induction gs rule: merge_pairs.induct) (auto simp: Let_def)

lemma mset_filter_groups:
  "mset (all_items (filter P gs)) + mset (all_items (filter (\<lambda>g. \<not> P g) gs)) = mset (all_items gs)"
  by (induction gs) (auto simp: all_items_Cons all_items_Nil)

lemma mset_mergeSmallGroups: "mset (all_items (mergeSmallGroups groups)) = mset (all_items groups)"
proof -
  define small where "small = filter (\<lambda>g. length (gitems g) < 5) groups"
  define large where "large = filter (\<lambda>g. \<not> length (gitems g) < 5) groups"
  define merged where "merged = large @ fst (merge_pairs small)"
  define rest where "rest = snd (merge_pairs small)"
  have "mset (all_items merged) + mset (all_items rest)
          = mset (all_items large) + (mset (all_items (fst (merge_pairs small)))
              + mset (all_items (snd (merge_pairs small))))"
    by (simp add: merged_def rest_def all_items_append)
  also have "\<dots> = mset (all_items large) + mset (all_items small)"
    by (simp only: mset_merge_pairs)
  also have "\<dots> = mset (all_items small) + mset (all_items large)"
    by (simp only: add.commute)
  also have "\<dots> = mset (all_items groups)"
    unfolding small_def large_def by (rule mset_filter_groups)
  finally have total: "mset (all_items merged) + mset (all_items rest) = mset (all_items groups)" .
  have short: "length rest \<le> 1"
    unfolding rest_def by (rule length_merge_pairs_rest)
  have unfold: "mergeSmallGroups groups =
      (case rest of [] \<Rightarrow> merged
       | leftover # _ \<Rightarrow>
           (case merged of [] \<Rightarrow> [leftover]
            | g0 # gs \<Rightarrow> g0\<lparr>gitems := gitems g0 @ gitems leftover\<rparr> # gs))"
    unfolding mergeSmallGroups_def Let_def small_def large_def merged_def rest_def ..
  show ?thesis
  proof (cases rest)
    case Nil
    with total show ?thesis by (simp add: unfold all_items_Nil)
  next
    case (Cons leftover more)
    with short have more: "more = []" by simp
    show ?thesis
    proof (cases merged)
      case Nil
      with total Cons more show ?thesis by (simp add: unfold all_items_Nil all_items_Cons)
    next
      case (Cons g0 gs)
      with total \<open>rest = leftover # more\<close> more show ?thesis
        by (simp add: unfold all_items_Nil all_items_Cons ac_simps)
    qed
  qed
qed

lemma mset_split_step:
  "mset (all_items (fst (split_step maxArea st it))) + mset (fst (snd (split_step maxArea st it)))
     = add_mset it (mset (all_items (fst st)) + mset (fst (snd st)))"
  by (simp add: split_step_def Let_def all_items_append all_items_Cons all_items_Nil)

lemma mset_split_fold:
  "mset (all_items (fst (foldl (split_step maxArea) st its)))
     + mset (fst (snd (foldl (split_step maxArea) st its)))
     = mset its + (mset (all_items (fst st)) + mset (fst (snd st)))"
proof (induction its arbitrary: st)
  case Nil
  then show ?case by simp
next
  case (Cons it its)
  show ?case
    by (simp only: foldl_Cons Cons.IH mset_split_step) simp
qed

lemma mset_splitByArea: "mset (all_items (splitByArea its maxArea)) = mset its"
  using mset_split_fold[of maxArea "([], [], 0)" its]
  by (auto simp: splitByArea_def Let_def all_items_append all_items_Cons all_items_Nil)

lemma limit_loop_total:
  assumes "0 < MAX_IMAGES_PER_GROUP cfg"
  shows "\<exists>out. limit_loop cfg g remainingItems acc = Some out \<and>
           mset (all_items out) = mset (all_items acc) + mset remainingItems"
proof (induction "length remainingItems" arbitrary: remainingItems acc rule: less_induct)
  case less
  show ?case
  proof (cases "remainingItems = []")
    case True
    then show ?thesis by (subst limit_loop.simps) simp
  next
    case False
    let ?n = "MAX_IMAGES_PER_GROUP cfg"
    let ?batch = "take ?n remainingItems"
    let ?acc' = "if foldl (\<lambda>sum img. sum + width img * height img) 0 ?batch > MAX_AREA_PER_GROUP cfg
                 then acc @ splitByArea ?batch (MAX_AREA_PER_GROUP cfg)
                 else acc @ [\<lparr>gname = gname g, gitems = ?batch, gstrategy = gstrategy g\<rparr>]"
    have shorter: "length (drop ?n remainingItems) < length remainingItems"
      using False assms by simp
    from less[OF shorter, of ?acc'] obtain out where
      out: "limit_loop cfg g (drop ?n remainingItems) ?acc' = Some out"
      and ms: "mset (all_items out) = mset (all_items ?acc') + mset (drop ?n remainingItems)"
      by blast
    have acc': "mset (all_items ?acc') = mset (all_items acc) + mset ?batch"
      by (simp add: all_items_append all_items_Cons all_items_Nil mset_splitByArea)
    have "mset ?batch + mset (drop ?n remainingItems) = mset remainingItems"
      by (metis append_take_drop_id mset_append)
    with ms acc' have "mset (all_items out) = mset (all_items acc) + mset remainingItems"
      by (simp add: add.assoc)
    moreover have "limit_loop cfg g remainingItems acc = Some out"
      using False out by (subst limit_loop.simps) (simp add: Let_def)
    ultimately show ?thesis by blast
  qed
qed

lemma limitGroupSize_from_total:
  assumes "0 < MAX_IMAGES_PER_GROUP cfg"
  shows "\<exists>out. limitGroupSize_from cfg groups acc = Some out \<and>
           mset (all_items out) = mset (all_items acc) + mset (all_items groups)"
proof (induction groups arbitrary: acc)
  case Nil
  then show ?case by (simp add: all_items_Nil)
next
  case (Cons g groups)
  from limit_loop_total[OF assms, of g "gitems g" acc] obtain mid where
    mid: "limit_loop cfg g (gitems g) acc = Some mid"
    and m1: "mset (all_items mid) = mset (all_items acc) + mset (gitems g)" by blast
  from Cons[of mid] obtain out where
    out: "limitGroupSize_from cfg groups mid = Some out"
    and m2: "mset (all_items out) = mset (all_items mid) + mset (all_items groups)" by blast
  show ?case using mid out m1 m2 by (simp add: all_items_Cons add.assoc)
qed

lemma length_all_items: "length (all_items groups) = (\<Sum>g\<leftarrow>groups. length (gitems g))"
  by (induction groups) (simp_all add: all_items_Nil all_items_Cons)

text \<open>
  Claim C8. For every input list, the empty one included (which gives the empty group
  list), and every configuration whose \<open>MAX_IMAGES_PER_GROUP\<close> is at least 1 (with 0 the
  loop of \<open>limitGroupSize\<close> never ends), \<open>groupImages\<close> returns groups whose sizes add up
  to the number of input items and whose items are exactly the input items, each as
  often as it was given: tiering, merging, the count cap and the area split lose and
  duplicate nothing.
\<close>

theorem groupImages_partition:
  assumes "0 < MAX_IMAGES_PER_GROUP cfg"
  shows "\<exists>groups. groupImages cfg images = Some groups \<and>
           (\<Sum>g\<leftarrow>groups. length (gitems g)) = length images \<and>
           mset (all_items groups) = mset images \<and>
           (images = [] \<longrightarrow> groups = [])"
proof (cases "images = []")
  case True
  then show ?thesis by (simp add: groupImages_def all_items_Nil)
next
  case False
  let ?merged = "mergeSmallGroups (refineGroupsByAspectRatio cfg (groupBySize cfg images))"
  from limitGroupSize_from_total[OF assms, of ?merged "[]"] obtain out where
    out: "limitGroupSize_from cfg ?merged [] = Some out"
    and ms: "mset (all_items out) = mset (all_items ?merged)"
    by (auto simp: all_items_Nil)
  have "mset (all_items out) = mset images"
    by (simp add: ms mset_mergeSmallGroups mset_refineGroups mset_groupBySize)
  moreover from this have "length (all_items out) = length images"
    by (metis size_mset)
  moreover have "groupImages cfg images = Some out"
    using False out by (simp add: groupImages_def limitGroupSize_def Let_def)
  ultimately show ?thesis using False by (simp add: length_all_items)
qed

theorem groupImages_partition_witness:
  "0 < MAX_IMAGES_PER_GROUP GROUPING_CONFIG \<and>
   (\<exists>groups. groupImages GROUPING_CONFIG tier_items = Some groups \<and>
      (\<Sum>g\<leftarrow>groups. length (gitems g)) = length tier_items \<and>
      mset (all_items groups) = mset tier_items \<and> groups \<noteq> []) \<and>
   groupImages GROUPING_CONFIG [] = Some []"
proof -
  have pos: "0 < MAX_IMAGES_PER_GROUP GROUPING_CONFIG" by (simp add: GROUPING_CONFIG_def)
  have ne: "tier_items \<noteq> []" by (simp add: tier_items_def)
  from groupImages_partition[OF pos, of tier_items] obtain groups where
    g: "groupImages GROUPING_CONFIG tier_items = Some groups"
       "(\<Sum>g\<leftarrow>groups. length (gitems g)) = length tier_items"
       "mset (all_items groups) = mset tier_items" by blast
  from g(3) ne have "groups \<noteq> []" by (auto simp: all_items_Nil)
  moreover from groupImages_partition[OF pos, of "[]"] have "groupImages GROUPING_CONFIG [] = Some []"
    by auto
  ultimately show ?thesis using pos g by blast
qed

text \<open>
  Claim C9 at a concrete input: four images in four different buckets. The merge step
  pairs the four single-image buckets into two groups of two images, so two groups
  have fewer than 5 items.
\<close>

theorem mergeSmallGroups_two_small_groups:
  "map (\<lambda>g. (gname g, length (gitems g)))
     (mergeSmallGroups
        (refineGroupsByAspectRatio GROUPING_CONFIG (groupBySize GROUPING_CONFIG tier_items)))
   = [(''small_normal+medium_normal'', 2), (''large_normal+xlarge_normal'', 2)]"
  by code_simp

section \<open>recordResult: the state update\<close>

lemma foldl_plus_sum_list: "foldl (+) a xs = a + sum_list (xs :: rat list)"
  by (induction xs arbitrary: a) (auto simp: algebra_simps)

lemma capped_push: "length xs \<le> n \<Longrightarrow>
  (if length (xs @ [v]) > n then tl (xs @ [v]) else xs @ [v]) = last_n n (xs @ [v])"
  by (cases xs) (auto simp: last_n_def drop_Cons' Suc_diff_le)

lemma length_last_n: "length (last_n n xs) \<le> n"
  by (simp add: last_n_def)

lemma has_buffer_Some:
  "has_buffer st \<longleftrightarrow> (\<exists>buffer. efficiencies st = Some buffer \<and> length buffer \<le> 50)"
  by (simp add: has_buffer_def split: option.splits)

text \<open>With its buffer, an algorithm's statistics are updated as the specification says.\<close>

lemma recordStats_spec:
  assumes "efficiencies st = Some buffer" and "length buffer \<le> 50"
  shows "recordStats st success efficiency =
     Inr \<lparr>usage = usage st + 1,
          successRate = (successRate st * (of_nat (usage st + 1) - 1) + (if success then 1 else 0))
                          / of_nat (usage st + 1),
          efficiencies = (if success \<and> efficiency > 0 then Some (last_n 50 (buffer @ [efficiency]))
                          else Some buffer),
          avgEfficiency = (if success \<and> efficiency > 0
                           then Some (mean (last_n 50 (buffer @ [efficiency])))
                           else avgEfficiency st)\<rparr>"
  using capped_push[OF assms(2), of efficiency] assms(1)
  by (simp add: recordStats_def Let_def mean_def foldl_plus_sum_list)

text \<open>Without its buffer, a successful result with a positive efficiency throws.\<close>

lemma recordStats_throws:
  assumes "efficiencies st = None" and "success" and "efficiency > 0"
  shows "recordStats st success efficiency = Inl (TypeError, st\<lparr>usage := usage st + 1\<rparr>)"
  using assms by (simp add: recordStats_def Let_def)

text \<open>
  From a selector that has its buffers and for a known algorithm, \<open>recordResult\<close> returns,
  and the state it returns has the usage incremented to \<open>n\<close>, the efficiency appended
  and the mean recomputed exactly when \<open>success\<close> holds and \<open>efficiency > 0\<close>, the 50 most
  recent entries kept, the success rate \<open>(oldRate * (n - 1) + (success ? 1 : 0)) / n\<close>,
  and the record appended to the history, the 50 most recent entries kept.
\<close>

lemma recordResult_with_buffers:
  assumes "wf_selector sel" and "algorithm = ''maxRectangles'' \<or> algorithm = ''shelf''"
    and "efficiencies (stat_of sel algorithm) = Some buffer"
  shows "\<exists>sel'. recordResult sel algorithm success efficiency now = Inr sel' \<and>
         stat_of sel' algorithm =
           \<lparr>usage = usage (stat_of sel algorithm) + 1,
            successRate =
              (successRate (stat_of sel algorithm) * (of_nat (usage (stat_of sel algorithm) + 1) - 1)
                 + (if success then 1 else 0)) / of_nat (usage (stat_of sel algorithm) + 1),
            efficiencies =
              (if success \<and> efficiency > 0 then Some (last_n 50 (buffer @ [efficiency]))
               else Some buffer),
            avgEfficiency =
              (if success \<and> efficiency > 0
               then Some (mean (last_n 50 (buffer @ [efficiency])))
               else avgEfficiency (stat_of sel algorithm))\<rparr>
         \<and> history sel' =
             last_n 50 (history sel @
               [\<lparr>h_algorithm = algorithm, h_success = success, h_efficiency = efficiency,
                 h_timestamp = now\<rparr>])
         \<and> wf_selector sel'"
proof -
  have hist: "length (history sel) \<le> 50" and mh: "maxHistorySize sel = 50"
    and b1: "has_buffer (stat_maxRectangles sel)" and b2: "has_buffer (stat_shelf sel)"
    using assms(1) by (simp_all add: wf_selector_def)
  show ?thesis
  proof (cases "algorithm = ''maxRectangles''")
    case True
    with assms(3) have e: "efficiencies (stat_maxRectangles sel) = Some buffer"
      by (simp add: stat_of_def)
    with b1 have l: "length buffer \<le> 50" by (simp add: has_buffer_def)
    show ?thesis
      using True capped_push[OF hist] mh b2 l e
      by (simp add: recordResult_def recordHistory_def stat_of_def Let_def
          recordStats_spec[OF e l] wf_selector_def has_buffer_def length_last_n)
  next
    case False
    with assms(2) have s: "algorithm = ''shelf''" by simp
    with assms(3) have e: "efficiencies (stat_shelf sel) = Some buffer"
      by (simp add: stat_of_def)
    with b2 have l: "length buffer \<le> 50" by (simp add: has_buffer_def)
    show ?thesis
      using s capped_push[OF hist] mh b1 l e
      by (simp add: recordResult_def recordHistory_def stat_of_def Let_def
          recordStats_spec[OF e l] wf_selector_def has_buffer_def length_last_n)
  qed
qed

lemma new_selector_wf: "wf_selector new_selector"
  by (simp add: wf_selector_def new_selector_def has_buffer_def)

lemma recordResult_new_selector:
  "recordResult new_selector ''shelf'' True 80 7 =
     Inr (new_selector
           \<lparr>stat_shelf := \<lparr>usage = 1, successRate = 1, efficiencies = Some [80],
                           avgEfficiency = Some 80\<rparr>,
            history := [\<lparr>h_algorithm = ''shelf'', h_success = True, h_efficiency = 80,
                         h_timestamp = 7\<rparr>]\<rparr>)"
  by (simp add: recordResult_def recordStats_def recordHistory_def new_selector_def Let_def)

text \<open>
  Claim C10 at a state of the selector: a new selector after \<open>resetStatistics()\<close>. The
  call \<open>recordResult('shelf', true, 80)\<close> increments the usage of \<open>shelf\<close> to 1 and then
  throws a \<open>TypeError\<close>: there is no efficiency buffer to append to. Nothing is appended,
  no mean is computed, the success rate stays 0 and the history stays empty.
\<close>

theorem recordResult_after_resetStatistics:
  "recordResult (resetStatistics new_selector) ''shelf'' True 80 7 =
     Inl (TypeError,
          \<lparr>stat_maxRectangles =
             \<lparr>usage = 0, successRate = 0, efficiencies = None, avgEfficiency = None\<rparr>,
           stat_shelf =
             \<lparr>usage = 1, successRate = 0, efficiencies = None, avgEfficiency = None\<rparr>,
           history = [], maxHistorySize = 50\<rparr>)"
  by (simp add: recordResult_def recordStats_def resetStatistics_def new_selector_def Let_def)

end
